theory Spec2Isabelle
  imports Main
begin

section \<open>JavaScript values and results\<close>

text \<open>
  The values a call of a memoized function can receive and return. \<open>Num n\<close> stands
  for the Number whose mathematical value is the integer \<open>n\<close>, for the safe integers
  \<open>|n| < 2^53\<close> only (\<open>safe\<close> below; \<open>Num 0\<close> is \<open>+0\<close>), and \<open>NegZero\<close> for the Number
  \<open>-0\<close>; larger Numbers, fractions, NaN and the infinities are not modelled. \<open>Str s\<close> is
  a string whose code units are all below 256; other strings are not modelled. \<open>Fun i\<close>
  and \<open>Symbol i\<close> are a function object and a symbol with identity \<open>i\<close>. \<open>Arr xs\<close> is an
  array without holes; \<open>Obj kvs\<close> is a plain object whose own enumerable string-keyed
  properties are \<open>kvs\<close>, in enumeration order.
\<close>

datatype jsval =
    Undefined
  | Null
  | Bool bool
  | Num int
  | NegZero
  | BigInt int
  | Str string
  | Symbol nat
  | Fun nat
  | Arr "jsval list"
  | Obj "(string \<times> jsval) list"

text \<open>
  What a \<open>throw\<close> carries: the \<open>TypeError\<close> the engine raises, or any value thrown by
  user code. A call completes with \<open>Inr v\<close> (it returns \<open>v\<close>) or \<open>Inl e\<close> (it throws \<open>e\<close>).
\<close>

datatype error = TypeError | Thrown jsval

type_synonym completion = "error + jsval"

text \<open>\<open>Number.isSafeInteger\<close>, on the integer that \<open>Num n\<close> carries.\<close>

definition safe :: "int \<Rightarrow> bool" where
  "safe n \<longleftrightarrow> \<bar>n\<bar> < 9007199254740992"

section \<open>The built-ins used by the key derivation\<close>

text \<open>
  \<open>Number::toString\<close> on a safe integer: its decimal digits, with the sign of a
  negative number. This is the text of the code for \<open>|n| < 2^53\<close> only: from \<open>2^53\<close> on
  the code writes the shortest digits that read back as the same Number, and from
  \<open>10^21\<close> on it writes an exponent, neither of which is modelled. What is proved below
  of the texts of Numbers is proved of safe integers. \<open>digit\<close> also serves the
  hexadecimal escapes of strings.
\<close>

definition digit :: "nat \<Rightarrow> char" where
  "digit d = ''0123456789abcdef'' ! d"

function digits :: "nat \<Rightarrow> string" where
  "digits n = (if n < 10 then [digit n] else digits (n div 10) @ [digit (n mod 10)])"
  by pat_completeness auto
termination
  by (relation "measure (\<lambda>n. n)") auto

declare digits.simps [simp del]

definition Number_toString :: "int \<Rightarrow> string" where
  "Number_toString n = (if n < 0 then CHR ''-'' # digits (nat (- n)) else digits (nat n))"

text \<open>
  \<open>QuoteJSONString\<close>: the string between double quotes, with the double quote, the
  backslash and the control characters escaped.
\<close>

definition QuoteJSONChar :: "char \<Rightarrow> string" where
  "QuoteJSONChar c =
     (if c = CHR 0x08 then [CHR 0x5C, CHR ''b'']
      else if c = CHR 0x09 then [CHR 0x5C, CHR ''t'']
      else if c = CHR 0x0A then [CHR 0x5C, CHR ''n'']
      else if c = CHR 0x0C then [CHR 0x5C, CHR ''f'']
      else if c = CHR 0x0D then [CHR 0x5C, CHR ''r'']
      else if c = CHR 0x22 then [CHR 0x5C, CHR 0x22]
      else if c = CHR 0x5C then [CHR 0x5C, CHR 0x5C]
      else if (of_char c :: nat) < 32
        then [CHR 0x5C, CHR ''u'', CHR ''0'', CHR ''0'',
              digit (of_char c div 16), digit (of_char c mod 16)]
      else [c])"

definition QuoteJSONString :: "string \<Rightarrow> string" where
  "QuoteJSONString s = CHR 0x22 # concat (map QuoteJSONChar s) @ [CHR 0x22]"

text \<open>
  \<open>Array.prototype.join\<close> on an array whose elements are strings or \<open>undefined\<close>
  (\<open>None\<close>): an \<open>undefined\<close> element contributes the empty string.
\<close>

fun join :: "string \<Rightarrow> string option list \<Rightarrow> string" where
  "join sep [] = []"
| "join sep [x] = (case x of None \<Rightarrow> [] | Some s \<Rightarrow> s)"
| "join sep (x # y # ys) = (case x of None \<Rightarrow> [] | Some s \<Rightarrow> s) @ sep @ join sep (y # ys)"

text \<open>The results of a left-to-right evaluation; the first throw ends it.\<close>

fun sequence :: "(error + 'a) list \<Rightarrow> error + 'a list" where
  "sequence [] = Inr []"
| "sequence (Inl e # rs) = Inl e"
| "sequence (Inr x # rs) = (case sequence rs of Inl e \<Rightarrow> Inl e | Inr xs \<Rightarrow> Inr (x # xs))"

text \<open>
  \<open>JSON.stringify(value)\<close>, by \<open>SerializeJSONProperty\<close>: \<open>Inr None\<close> is the result
  \<open>undefined\<close> (for \<open>undefined\<close>, a function or a symbol), a BigInt throws a
  \<open>TypeError\<close>. In an array an element without a serialization is written \<open>null\<close>; in
  an object a property without one is left out. \<open>args.map(JSON.stringify)\<close> passes the
  index and the array as replacer and space: neither is a function, a list, a number or
  a string, so both are ignored.
\<close>

fun JSON_stringify :: "jsval \<Rightarrow> error + string option" where
  "JSON_stringify Undefined = Inr None"
| "JSON_stringify Null = Inr (Some ''null'')"
| "JSON_stringify (Bool b) = Inr (Some (if b then ''true'' else ''false''))"
| "JSON_stringify (Num n) = Inr (Some (Number_toString n))"
| "JSON_stringify NegZero = Inr (Some ''0'')"
| "JSON_stringify (BigInt n) = Inl TypeError"
| "JSON_stringify (Str s) = Inr (Some (QuoteJSONString s))"
| "JSON_stringify (Symbol i) = Inr None"
| "JSON_stringify (Fun i) = Inr None"
| "JSON_stringify (Arr xs) =
     (case sequence (map JSON_stringify xs) of
        Inl e \<Rightarrow> Inl e
      | Inr ss \<Rightarrow>
          Inr (Some (''['' @ join '','' (map (\<lambda>s. Some (case s of None \<Rightarrow> ''null'' | Some t \<Rightarrow> t)) ss)
                     @ '']'')))"
| "JSON_stringify (Obj kvs) =
     (case sequence (map (\<lambda>kv. case JSON_stringify (snd kv) of
                                   Inl e \<Rightarrow> Inl e
                                 | Inr s \<Rightarrow> Inr (fst kv, s)) kvs) of
        Inl e \<Rightarrow> Inl e
      | Inr ps \<Rightarrow>
          Inr (Some (''{'' @ join '',''
                       (concat (map (\<lambda>(k, s). case s of
                                        None \<Rightarrow> []
                                      | Some t \<Rightarrow> [Some (QuoteJSONString k @ '':'' @ t)]) ps))
                     @ ''}'')))"

section \<open>The program state\<close>

text \<open>
  A function is called with its argument list in a state of the program and, when it
  returns or throws, leaves a completion and a new state. \<open>None\<close> is a call without a
  result: the recursion bound of \<open>factorial\<close> was reached, or an operand lies outside
  the modelled values.

  The state holds the objects bound to \<open>cache\<close> in the closures that \<open>memoize\<close> has
  created, each under the reference the closure holds (\<open>caches w c k = None\<close>: the object
  has no property \<open>k\<close>), the next free reference, and the lines written by
  \<open>console.log\<close>. The field \<open>calls\<close> is a ghost trace: it records every invocation of an
  underlying function \<open>fn\<close> by a wrapper, as the wrapper's reference and the arguments.
\<close>

record world =
  caches :: "nat \<Rightarrow> (string \<rightharpoonup> jsval)"
  next_ref :: nat
  console :: "string list"
  calls :: "(nat \<times> jsval list) list"

type_synonym js_fn = "jsval list \<Rightarrow> world \<Rightarrow> (completion \<times> world) option"

text \<open>
  A pure function: its completion depends on the arguments only and it leaves the
  state as it is.
\<close>

type_synonym pure_fn = "jsval list \<Rightarrow> completion option"

definition call_pure :: "pure_fn \<Rightarrow> js_fn" where
  "call_pure f args w = (case f args of None \<Rightarrow> None | Some r \<Rightarrow> Some (r, w))"

section \<open>memoize\<close>

text \<open>
  \<^verbatim>\<open>const key = args.map(JSON.stringify).join('---')\<close>
\<close>

definition key :: "jsval list \<Rightarrow> error + string" where
  "key args =
     (case sequence (map JSON_stringify args) of
        Inl e \<Rightarrow> Inl e
      | Inr ss \<Rightarrow> Inr (join ''---'' ss))"

text \<open>
  \<open>cache[key]\<close>: the value of the property, \<open>undefined\<close> when the object has none. (The
  object is created by \<open>{}\<close> and inherits from \<open>Object.prototype\<close>, but a lookup never
  reaches an inherited property: a key consists of JSON texts and empty strings joined
  by the delimiter, and no property name of \<open>Object.prototype\<close> has this form.)
\<close>

definition cache_get :: "(string \<rightharpoonup> jsval) \<Rightarrow> string \<Rightarrow> jsval" where
  "cache_get cache k = (case cache k of None \<Rightarrow> Undefined | Some v \<Rightarrow> v)"

text \<open>
  The arrow function returned by \<open>memoize(fn)\<close>, for the closure whose \<open>cache\<close> is the
  object at reference \<open>c\<close>:
  \<^verbatim>\<open>
  (...args) => {
    const key = args.map(JSON.stringify).join('---')
    if (cache[key] !== undefined) {
      console.log('from cache')
      return cache[key]
    }
    const result = fn(...args)
    cache[key] = result
    return result
  }
  \<close>
\<close>

definition memoized :: "nat \<Rightarrow> js_fn \<Rightarrow> js_fn" where
  "memoized c fn args w =
     (case key args of
        Inl e \<Rightarrow> Some (Inl e, w)
      | Inr k \<Rightarrow>
          if cache_get (caches w c) k \<noteq> Undefined
          then Some (Inr (cache_get (caches w c) k),
                     w\<lparr>console := console w @ [''from cache'']\<rparr>)
          else (case fn args (w\<lparr>calls := calls w @ [(c, args)]\<rparr>) of
                  None \<Rightarrow> None
                | Some (Inl e, w') \<Rightarrow> Some (Inl e, w')
                | Some (Inr result, w') \<Rightarrow>
                    Some (Inr result,
                          w'\<lparr>caches := (caches w')(c := (caches w' c)(k \<mapsto> result))\<rparr>)))"

text \<open>
  \<^verbatim>\<open>function memoize(fn) { const cache = {}; return (...args) => { ... } }\<close>

  A call creates a new empty object and returns the closure over it and \<open>fn\<close>.
\<close>

definition memoize :: "js_fn \<Rightarrow> world \<Rightarrow> js_fn \<times> world" where
  "memoize fn w =
     (memoized (next_ref w) fn,
      w\<lparr>caches := (caches w)(next_ref w := Map.empty), next_ref := Suc (next_ref w)\<rparr>)"

section \<open>The functions of the article\<close>

text \<open>
  \<^verbatim>\<open>function add(x, y) { return x + y }\<close>

  on safe integers with a safe sum, where \<open>+\<close> is exact; \<open>+\<close> on other operands
  (\<open>-0\<close> among them) is not modelled.
\<close>

definition add :: pure_fn where
  "add args =
     (case args of
        Num x # Num y # _ \<Rightarrow>
          if safe x \<and> safe y \<and> safe (x + y) then Some (Inr (Num (x + y))) else None
      | _ \<Rightarrow> None)"

text \<open>
  \<^verbatim>\<open>
  const factorial = memoize(n => {
    if (n === 0) {
      return 1
    }
    return n * factorial(n - 1)
  })
  \<close>
  \<open>factorial_fn\<close> is the arrow function, with the binding \<open>factorial\<close> it calls as its
  first parameter; \<open>factorial d c\<close> is the memoized function over the cache at \<open>c\<close>, for
  calls nested at most \<open>d\<close> deep. The operators are modelled on safe integers with a
  safe product, where they are exact: \<open>-0 === 0\<close> holds, and the product of a negative
  number and \<open>+0\<close> is \<open>-0\<close>.
\<close>

definition factorial_fn :: "js_fn \<Rightarrow> js_fn" where
  "factorial_fn factorial args w =
     (case args of
        Num n # _ \<Rightarrow>
          if \<not> safe n then None
          else if n = 0 then Some (Inr (Num 1), w)
          else (case factorial [Num (n - 1)] w of
                  None \<Rightarrow> None
                | Some (Inl e, w') \<Rightarrow> Some (Inl e, w')
                | Some (Inr (Num r), w') \<Rightarrow>
                    if \<not> (safe r \<and> safe (n * r)) then None
                    else if r = 0 \<and> n < 0 then Some (Inr NegZero, w')
                    else Some (Inr (Num (n * r)), w')
                | Some (Inr _, w') \<Rightarrow> None)
      | NegZero # _ \<Rightarrow> Some (Inr (Num 1), w)
      | _ \<Rightarrow> None)"

primrec factorial :: "nat \<Rightarrow> nat \<Rightarrow> js_fn" where
  "factorial 0 c = (\<lambda>args w. None)"
| "factorial (Suc d) c = memoized c (factorial_fn (factorial d c))"

section \<open>Calling a function several times\<close>

text \<open>
  The calls \<open>f(a1); f(a2); ...\<close> one after the other, each in the state the one before
  left; the completions are collected in order.
\<close>

fun run_calls :: "js_fn \<Rightarrow> jsval list list \<Rightarrow> world \<Rightarrow> (completion list \<times> world) option" where
  "run_calls f [] w = Some ([], w)"
| "run_calls f (a # as) w =
     (case f a w of
        None \<Rightarrow> None
      | Some (r, w') \<Rightarrow>
          (case run_calls f as w' of
             None \<Rightarrow> None
           | Some (rs, w'') \<Rightarrow> Some (r # rs, w'')))"

text \<open>The state of a program that has not yet called \<open>memoize\<close>.\<close>

definition start :: world where
  "start = \<lparr>caches = (\<lambda>c. Map.empty), next_ref = 0, console = [], calls = []\<rparr>"

section \<open>Functions to wrap, for the examples\<close>

text \<open>
  \<^verbatim>\<open>(...args) => args.length\<close>, \<^verbatim>\<open>() => undefined\<close>,
  \<^verbatim>\<open>() => { throw 'boom' }\<close>,
  \<^verbatim>\<open>(...args) => args.length === 0 ? undefined : args.length\<close> and
  \<^verbatim>\<open>(...args) => args.length === 0 ? 5 : undefined\<close>.
\<close>

definition count_args :: pure_fn where
  "count_args args = Some (Inr (Num (int (length args))))"

definition returns_undefined :: pure_fn where
  "returns_undefined args = Some (Inr Undefined)"


definition count_or_undefined :: pure_fn where
  "count_or_undefined args =
     Some (Inr (if args = [] then Undefined else Num (int (length args))))"

definition five_or_undefined :: pure_fn where
  "five_or_undefined args = Some (Inr (if args = [] then Num 5 else Undefined))"

text \<open>
  A function that shows its own invocations:
  \<^verbatim>\<open>(...args) => { console.log('fn called'); return f(...args) }\<close>
  for a pure \<open>f\<close>.
\<close>

definition logging :: "pure_fn \<Rightarrow> js_fn" where
  "logging f args w =
     (case f args of
        None \<Rightarrow> None
      | Some r \<Rightarrow> Some (r, w\<lparr>console := console w @ [''fn called'']\<rparr>))"

section \<open>The options of the specification\<close>

text \<open>
  The specification describes a wrap operation \<open>wrap(fn, options)\<close> whose options are
  \<open>keyFn\<close>, the key derivation, and \<open>cacheFactory\<close>, which makes the cache of the new
  instance. \<open>spec_wrap\<close> and \<open>spec_memoized\<close> follow the words of the specification, not
  the code: the wrapped function derives its key with \<open>keyFn\<close> and starts from the cache
  that \<open>cacheFactory\<close> returns; a call whose key matches a stored entry returns the
  stored result without invoking \<open>fn\<close>, whatever the stored value is; any other call
  invokes \<open>fn\<close>, stores a returned result under the key and returns it, and passes on a
  failure without storing; there is no side effect beyond the growth of the cache (the
  ghost trace of invocations is kept as in \<open>memoized\<close>, to compare call frequencies).
\<close>

record wrap_options =
  keyFn :: "jsval list \<Rightarrow> error + string"
  cacheFactory :: "string \<rightharpoonup> jsval"

definition spec_memoized :: "(jsval list \<Rightarrow> error + string) \<Rightarrow> nat \<Rightarrow> js_fn \<Rightarrow> js_fn" where
  "spec_memoized kf c fn args w =
     (case kf args of
        Inl e \<Rightarrow> Some (Inl e, w)
      | Inr k \<Rightarrow>
          (case caches w c k of
             Some stored \<Rightarrow> Some (Inr stored, w)
           | None \<Rightarrow>
               (case fn args (w\<lparr>calls := calls w @ [(c, args)]\<rparr>) of
                  None \<Rightarrow> None
                | Some (Inl e, w') \<Rightarrow> Some (Inl e, w')
                | Some (Inr result, w') \<Rightarrow>
                    Some (Inr result,
                          w'\<lparr>caches := (caches w')(c := (caches w' c)(k \<mapsto> result))\<rparr>))))"

definition spec_wrap :: "js_fn \<Rightarrow> wrap_options \<Rightarrow> world \<Rightarrow> js_fn \<times> world" where
  "spec_wrap fn opts w =
     (spec_memoized (keyFn opts) (next_ref w) fn,
      w\<lparr>caches := (caches w)(next_ref w := cacheFactory opts), next_ref := Suc (next_ref w)\<rparr>)"

text \<open>
  The options that name what the code has built in: the key derivation of the code and
  a new empty plain object. (They are not the defaults that the specification asks
  for: the delimiter of \<open>key\<close> can appear inside a serialized argument.)
\<close>

definition built_in_options :: wrap_options where
  "built_in_options = \<lparr>keyFn = key, cacheFactory = Map.empty\<rparr>"

text \<open>
  The call \<open>memoize(fn, options)\<close> of the code: \<open>memoize\<close> declares the one parameter
  \<open>fn\<close> and does not read \<open>arguments\<close>, so a second argument is bound to nothing.
\<close>

definition memoize_call :: "js_fn \<Rightarrow> wrap_options \<Rightarrow> world \<Rightarrow> js_fn \<times> world" where
  "memoize_call fn opts w = memoize fn w"

text \<open>Options that ask for one key for all calls: \<^verbatim>\<open>{ keyFn: () => 'k', cacheFactory: () => ({}) }\<close>.\<close>

definition one_key_options :: wrap_options where
  "one_key_options = \<lparr>keyFn = (\<lambda>args. Inr ''k''), cacheFactory = Map.empty\<rparr>"

section \<open>Primitive arguments\<close>

text \<open>
  The arguments for which the keys are compared below: \<open>null\<close>, the booleans, the
  safe integers (\<open>-0\<close> is not among them) and the strings of the model, whose code
  units are below 256. \<open>text_of v\<close> is the text that \<open>JSON.stringify\<close> returns for such
  a value.
\<close>

fun primitive :: "jsval \<Rightarrow> bool" where
  "primitive Null = True"
| "primitive (Bool b) = True"
| "primitive (Num n) = safe n"
| "primitive (Str s) = True"
| "primitive v = False"

definition text_of :: "jsval \<Rightarrow> string" where
  "text_of v = (case JSON_stringify v of Inr (Some s) \<Rightarrow> s | _ \<Rightarrow> [])"

section \<open>One call of a memoized function\<close>

text \<open>The four ways a call of the wrapper of a pure function ends.\<close>

lemma memoized_key_throws:
  "key a = Inl e \<Longrightarrow> memoized c fn a w = Some (Inl e, w)"
  by (simp add: memoized_def)

lemma memoized_hit:
  "key a = Inr k \<Longrightarrow> cache_get (caches w c) k \<noteq> Undefined \<Longrightarrow>
   memoized c fn a w =
     Some (Inr (cache_get (caches w c) k), w\<lparr>console := console w @ [''from cache'']\<rparr>)"
  by (simp add: memoized_def)

lemma memoized_miss_returns:
  "key a = Inr k \<Longrightarrow> cache_get (caches w c) k = Undefined \<Longrightarrow> f a = Some (Inr v) \<Longrightarrow>
   memoized c (call_pure f) a w =
     Some (Inr v, w\<lparr>caches := (caches w)(c := (caches w c)(k \<mapsto> v)),
                      calls := calls w @ [(c, a)]\<rparr>)"
  by (simp add: memoized_def call_pure_def)

lemma memoized_miss_throws:
  "key a = Inr k \<Longrightarrow> cache_get (caches w c) k = Undefined \<Longrightarrow> f a = Some (Inl e) \<Longrightarrow>
   memoized c (call_pure f) a w = Some (Inl e, w\<lparr>calls := calls w @ [(c, a)]\<rparr>)"
  by (simp add: memoized_def call_pure_def)

lemma cache_get_defined:
  "cache_get m k \<noteq> Undefined \<Longrightarrow> m k = Some (cache_get m k)"
  by (simp add: cache_get_def split: option.splits)

lemma memoized_pure_step:
  assumes "f a \<noteq> None"
  shows "\<exists>r w'. memoized c (call_pure f) a w = Some (r, w') \<and>
           (caches w' = caches w \<or>
            (\<exists>k v. key a = Inr k \<and> f a = Some (Inr v) \<and> r = Inr v \<and>
                   cache_get (caches w c) k = Undefined \<and>
                   caches w' = (caches w)(c := (caches w c)(k \<mapsto> v))))"
proof (cases "key a")
  case (Inl e)
  then show ?thesis by (simp add: memoized_key_throws)
next
  case (Inr k)
  show ?thesis
  proof (cases "cache_get (caches w c) k = Undefined")
    case False
    with Inr show ?thesis by (simp add: memoized_hit)
  next
    case True
    from assms obtain r where r: "f a = Some r" by blast
    show ?thesis
    proof (cases r)
      case (Inl e)
      with Inr True r show ?thesis by (simp add: memoized_miss_throws)
    next
      case r': (Inr v)
      with Inr True r show ?thesis by (simp add: memoized_miss_returns)
    qed
  qed
qed

lemmas eval_key = key_def Number_toString_def digits.simps digit_def

section \<open>The result of the wrapper and the result of the function\<close>

lemma run_calls_agree:
  assumes cons: "\<forall>a\<in>A. \<forall>b\<in>A. key a = key b \<longrightarrow> f a = f b"
      and ser: "\<forall>a\<in>A. \<exists>k. key a = Inr k"
      and tot: "\<forall>a\<in>A. \<exists>r. f a = Some r"
  shows "set as \<subseteq> A \<Longrightarrow>
         (\<forall>k v. caches w c k = Some v \<longrightarrow> v \<noteq> Undefined \<longrightarrow>
                (\<exists>b\<in>A. key b = Inr k \<and> f b = Some (Inr v))) \<Longrightarrow>
         \<exists>rs w'. run_calls (memoized c (call_pure f)) as w = Some (rs, w') \<and>
                 map f as = map Some rs"
proof (induction as arbitrary: w)
  case Nil
  then show ?case by simp
next
  case (Cons a as)
  from Cons.prems(1) have aA: "a \<in> A" and sub: "set as \<subseteq> A" by auto
  from ser aA obtain k where k: "key a = Inr k" by blast
  from tot aA obtain r where r: "f a = Some r" by blast
  let ?m = "memoized c (call_pure f)"
  have step: "\<exists>w1. ?m a w = Some (r, w1) \<and>
     (\<forall>k v. caches w1 c k = Some v \<longrightarrow> v \<noteq> Undefined \<longrightarrow>
                (\<exists>b\<in>A. key b = Inr k \<and> f b = Some (Inr v)))"
  proof (cases "cache_get (caches w c) k = Undefined")
    case miss: True
    show ?thesis
    proof (cases r)
      case (Inl e)
      with k miss r have "?m a w = Some (r, w\<lparr>calls := calls w @ [(c, a)]\<rparr>)"
        by (simp add: memoized_miss_throws)
      with Cons.prems(2) show ?thesis by simp
    next
      case (Inr v)
      with k miss r have "?m a w =
        Some (r, w\<lparr>caches := (caches w)(c := (caches w c)(k \<mapsto> v)),
                      calls := calls w @ [(c, a)]\<rparr>)"
        by (simp add: memoized_miss_returns)
      moreover have "\<exists>b\<in>A. key b = Inr k \<and> f b = Some (Inr v)"
        using aA k r Inr by blast
      ultimately show ?thesis using Cons.prems(2) by auto
    qed
  next
    case hit: False
    let ?v = "cache_get (caches w c) k"
    from hit have "caches w c k = Some ?v" by (rule cache_get_defined)
    with Cons.prems(2) hit obtain b where b: "b \<in> A" "key b = Inr k" "f b = Some (Inr ?v)"
      by blast
    with cons aA k have "f a = Some (Inr ?v)" by metis
    with r have "r = Inr ?v" by simp
    with k hit have "?m a w = Some (r, w\<lparr>console := console w @ [''from cache'']\<rparr>)"
      by (simp add: memoized_hit)
    with Cons.prems(2) show ?thesis by simp
  qed
  then obtain w1 where w1: "?m a w = Some (r, w1)"
    and inv1: "\<forall>k v. caches w1 c k = Some v \<longrightarrow> v \<noteq> Undefined \<longrightarrow>
                (\<exists>b\<in>A. key b = Inr k \<and> f b = Some (Inr v))" by blast
  from Cons.IH[OF sub inv1] obtain rs w' where
    "run_calls ?m as w1 = Some (rs, w')" "map f as = map Some rs" by blast
  with w1 r show ?case by simp
qed

text \<open>
  Claim C1 says that \<open>memoized(a) === fn(a)\<close> for every pure \<open>fn\<close> and every argument
  tuple \<open>a\<close>. It fails where two tuples share a key: \<open>()\<close> and \<open>(undefined)\<close> both have
  the empty key, so after \<open>memoized()\<close> has stored \<open>0\<close> for the function that counts
  its arguments, \<open>memoized(undefined)\<close> returns the stored \<open>0\<close>, where the function
  returns \<open>1\<close>.
\<close>

theorem memoized_agrees_with_fn_counterexample:
  "run_calls (memoized 0 (call_pure count_args)) [[], [Undefined]] start =
     Some ([Inr (Num 0), Inr (Num 0)],
           start\<lparr>caches := (caches start)(0 := [[] \<mapsto> Num 0]),
                 calls := [(0, [])], console := [''from cache'']\<rparr>) \<and>
   count_args [Undefined] = Some (Inr (Num 1))"
  by (simp add: eval_key memoized_def call_pure_def cache_get_def count_args_def start_def)

text \<open>
  Claim C1, amended: on a new wrapper of a pure function, in any sequence of calls whose
  argument tuples can all be serialized and in which tuples that share a key have the
  same result under the function, every call completes as the function itself does on
  the same arguments, by returning the same value or throwing the same value.
\<close>

theorem memoized_agrees_with_fn:
  assumes "\<forall>a\<in>set as. \<exists>k. key a = Inr k"
      and "\<forall>a\<in>set as. \<exists>r. f a = Some r"
      and "\<forall>a\<in>set as. \<forall>b\<in>set as. key a = key b \<longrightarrow> f a = f b"
      and "\<forall>k. cache_get (caches w c) k = Undefined"
  shows "\<exists>rs w'. run_calls (memoized c (call_pure f)) as w = Some (rs, w') \<and>
                 map f as = map Some rs"
proof -
  have "\<forall>k v. caches w c k = Some v \<longrightarrow> v \<noteq> Undefined \<longrightarrow>
                (\<exists>b\<in>set as. key b = Inr k \<and> f b = Some (Inr v))"
    using assms(4) by (auto simp: cache_get_def split: option.splits)
  with run_calls_agree[OF assms(3) assms(1) assms(2), of as w c] show ?thesis by blast
qed

theorem memoized_agrees_with_fn_witness:
  "\<exists>rs w'. run_calls (memoized 0 (call_pure add))
              [[Num 12, Num 3], [Num 1, Num 23], [Num 12, Num 3]] start = Some (rs, w') \<and>
           map add [[Num 12, Num 3], [Num 1, Num 23], [Num 12, Num 3]] = map Some rs"
  using memoized_agrees_with_fn [of "[[Num 12, Num 3], [Num 1, Num 23], [Num 12, Num 3]]" add start 0]
  by (simp add: key_def Number_toString_def digits.simps digit_def add_def safe_def start_def cache_get_def)

section \<open>How often the function is invoked\<close>

lemma run_calls_hits:
  "key a = Inr k \<Longrightarrow> cache_get (caches w c) k = v \<Longrightarrow> v \<noteq> Undefined \<Longrightarrow>
   run_calls (memoized c fn) (replicate n a) w =
     Some (replicate n (Inr v), w\<lparr>console := console w @ replicate n ''from cache''\<rparr>)"
proof (induction n arbitrary: w)
  case 0
  then show ?case by simp
next
  case (Suc n)
  let ?w1 = "w\<lparr>console := console w @ [''from cache'']\<rparr>"
  from Suc.prems have "memoized c fn a w = Some (Inr v, ?w1)"
    by (simp add: memoized_hit)
  moreover from Suc.prems have "run_calls (memoized c fn) (replicate n a) ?w1 =
     Some (replicate n (Inr v), ?w1\<lparr>console := console ?w1 @ replicate n ''from cache''\<rparr>)"
    by (intro Suc.IH) simp_all
  ultimately show ?case by simp
qed

lemma run_calls_once_anywhere:
  assumes ka: "key a = Inr k" and fa: "f a = Some (Inr v)" and v: "v \<noteq> Undefined"
      and tot: "\<forall>b\<in>set as. f b \<noteq> None"
      and own: "\<forall>b\<in>set as. key b = Inr k \<longrightarrow> b = a"
  shows "cache_get (caches w c) k = Undefined \<or> cache_get (caches w c) k = v \<Longrightarrow>
         \<exists>rs w'. run_calls (memoized c (call_pure f)) as w = Some (rs, w') \<and>
           cache_get (caches w' c) k = (if a \<in> set as then v else cache_get (caches w c) k) \<and>
           count_list (calls w') (c, a) = count_list (calls w) (c, a) +
             (if cache_get (caches w c) k = Undefined \<and> a \<in> set as then 1 else 0) \<and>
           (\<forall>i<length as. as ! i = a \<longrightarrow> rs ! i = Inr v)"
  using tot own
proof (induction as arbitrary: w)
  case Nil
  then show ?case by simp
next
  case (Cons b as)
  let ?m = "memoized c (call_pure f)"
  let ?miss = "\<lambda>w. cache_get (caches w c) k = Undefined"
  from Cons.prems obtain r where r: "f b = Some r" by auto
  have step: "\<exists>r' w1. ?m b w = Some (r', w1) \<and>
      (if b = a then cache_get (caches w1 c) k = v \<and> r' = Inr v
       else cache_get (caches w1 c) k = cache_get (caches w c) k) \<and>
      count_list (calls w1) (c, a) =
        count_list (calls w) (c, a) + (if ?miss w \<and> b = a then 1 else 0)"
  proof (cases "b = a")
    case True
    show ?thesis
    proof (cases "?miss w")
      case True
      with ka fa \<open>b = a\<close> have "?m b w =
          Some (Inr v, w\<lparr>caches := (caches w)(c := (caches w c)(k \<mapsto> v)),
                          calls := calls w @ [(c, a)]\<rparr>)"
        by (simp add: memoized_miss_returns)
      with True \<open>b = a\<close> show ?thesis by (simp add: cache_get_def)
    next
      case False
      with Cons.prems(1) have "cache_get (caches w c) k = v" by simp
      with ka False \<open>b = a\<close> show ?thesis by (simp add: memoized_hit)
    qed
  next
    case False
    show ?thesis
    proof (cases "key b")
      case (Inl e)
      with False show ?thesis by (simp add: memoized_key_throws)
    next
      case (Inr k')
      with False Cons.prems(3) have k': "k' \<noteq> k" by auto
      show ?thesis
      proof (cases "cache_get (caches w c) k' = Undefined")
        case hit: False
        with Inr \<open>b \<noteq> a\<close> show ?thesis by (simp add: memoized_hit)
      next
        case True
        show ?thesis
        proof (cases r)
          case (Inl e)
          with Inr True r \<open>b \<noteq> a\<close> show ?thesis by (simp add: memoized_miss_throws)
        next
          case r': (Inr u)
          with Inr True r have "?m b w =
            Some (Inr u, w\<lparr>caches := (caches w)(c := (caches w c)(k' \<mapsto> u)),
                            calls := calls w @ [(c, b)]\<rparr>)"
            by (simp add: memoized_miss_returns)
          with k' \<open>b \<noteq> a\<close> show ?thesis by (simp add: cache_get_def)
        qed
      qed
    qed
  qed
  then obtain r' w1 where 1: "?m b w = Some (r', w1)"
    and 2: "if b = a then cache_get (caches w1 c) k = v \<and> r' = Inr v
            else cache_get (caches w1 c) k = cache_get (caches w c) k"
    and 3: "count_list (calls w1) (c, a) =
        count_list (calls w) (c, a) + (if ?miss w \<and> b = a then 1 else 0)" by blast
  from 2 Cons.prems(1) have inv1: "?miss w1 \<or> cache_get (caches w1 c) k = v"
    by (auto split: if_splits)
  from Cons.prems have "\<forall>b\<in>set as. f b \<noteq> None"
    and "\<forall>b\<in>set as. key b = Inr k \<longrightarrow> b = a" by simp_all
  from Cons.IH[OF inv1 this] obtain rs w' where
    5: "run_calls ?m as w1 = Some (rs, w')" and
    6: "cache_get (caches w' c) k = (if a \<in> set as then v else cache_get (caches w1 c) k)" and
    8: "count_list (calls w') (c, a) = count_list (calls w1) (c, a) +
             (if ?miss w1 \<and> a \<in> set as then 1 else 0)" and
    9: "\<forall>i<length as. as ! i = a \<longrightarrow> rs ! i = Inr v" by blast
  from 1 5 have run: "run_calls ?m (b # as) w = Some (r' # rs, w')" by simp
  have final: "cache_get (caches w' c) k =
      (if a \<in> set (b # as) then v else cache_get (caches w c) k)"
    using 2 6 by (auto split: if_splits)
  have count: "count_list (calls w') (c, a) = count_list (calls w) (c, a) +
             (if ?miss w \<and> a \<in> set (b # as) then 1 else 0)"
  proof (cases "b = a")
    case True
    with 2 v have "\<not> ?miss w1" by simp
    with 3 8 True show ?thesis by simp
  next
    case False
    with 2 have "?miss w1 \<longleftrightarrow> ?miss w" by simp
    with 3 8 False show ?thesis by auto
  qed
  have results: "\<forall>i<length (b # as). (b # as) ! i = a \<longrightarrow> (r' # rs) ! i = Inr v"
  proof (intro allI impI)
    fix i assume "i < length (b # as)" and "(b # as) ! i = a"
    with 2 9 show "(r' # rs) ! i = Inr v" by (cases i) (auto split: if_splits)
  qed
  from run final count results show ?case by blast
qed

text \<open>
  Claim C2 says that \<open>N \<ge> 1\<close> calls with the same arguments invoke \<open>fn\<close> exactly once,
  for every pure \<open>fn\<close>. A function that returns \<open>undefined\<close> is invoked by each of two
  calls: the test \<open>cache[key] !== undefined\<close> does not see the stored entry.
\<close>

theorem repeated_calls_invoke_fn_once_counterexample:
  "run_calls (memoized 0 (call_pure returns_undefined)) [[Num 1], [Num 1]] start =
     Some ([Inr Undefined, Inr Undefined],
           start\<lparr>caches := (caches start)(0 := [''1'' \<mapsto> Undefined]),
                 calls := [(0, [Num 1]), (0, [Num 1])]\<rparr>)"
  by (simp add: eval_key memoized_def call_pure_def cache_get_def returns_undefined_def start_def)

text \<open>
  Claim C2, amended: when the cache holds no defined value under the key of \<open>a\<close> and the
  pure \<open>fn\<close> returns for \<open>a\<close> a value other than \<open>undefined\<close>, then \<open>N \<ge> 1\<close> calls
  \<open>memoized(a)\<close> in a row invoke \<open>fn\<close> exactly once, all return that value, and the last
  \<open>N - 1\<close> of them are served from the cache (each logs \<open>from cache\<close>). Calls with other
  arguments may come in between: in any sequence of calls that contains \<open>a\<close> and in
  which no other arguments have the key of \<open>a\<close>, \<open>fn\<close> is invoked with \<open>a\<close> exactly once
  and every call \<open>memoized(a)\<close> returns that value.
\<close>

theorem repeated_calls_invoke_fn_once:
  assumes "key a = Inr k" and "f a = Some (Inr v)" and "v \<noteq> Undefined"
      and "cache_get (caches w c) k = Undefined" and "1 \<le> N"
      and "\<forall>b\<in>set as. f b \<noteq> None" and "\<forall>b\<in>set as. key b = Inr k \<longrightarrow> b = a"
      and "a \<in> set as"
  shows "run_calls (memoized c (call_pure f)) (replicate N a) w =
           Some (replicate N (Inr v),
                 w\<lparr>caches := (caches w)(c := (caches w c)(k \<mapsto> v)),
                   calls := calls w @ [(c, a)],
                   console := console w @ replicate (N - 1) ''from cache''\<rparr>) \<and>
         (\<exists>rs w'. run_calls (memoized c (call_pure f)) as w = Some (rs, w') \<and>
            count_list (calls w') (c, a) = count_list (calls w) (c, a) + 1 \<and>
            (\<forall>i<length as. as ! i = a \<longrightarrow> rs ! i = Inr v))"
proof
  from \<open>1 \<le> N\<close> obtain n where N: "N = Suc n" by (cases N) auto
  let ?w1 = "w\<lparr>caches := (caches w)(c := (caches w c)(k \<mapsto> v)), calls := calls w @ [(c, a)]\<rparr>"
  from assms(1-4) have "memoized c (call_pure f) a w = Some (Inr v, ?w1)"
    by (simp add: memoized_miss_returns)
  moreover have "run_calls (memoized c (call_pure f)) (replicate n a) ?w1 =
     Some (replicate n (Inr v), ?w1\<lparr>console := console ?w1 @ replicate n ''from cache''\<rparr>)"
    by (rule run_calls_hits[of a k _ c v]) (use assms(1-4) in \<open>simp_all add: cache_get_def\<close>)
  ultimately show "run_calls (memoized c (call_pure f)) (replicate N a) w =
           Some (replicate N (Inr v),
                 w\<lparr>caches := (caches w)(c := (caches w c)(k \<mapsto> v)),
                   calls := calls w @ [(c, a)],
                   console := console w @ replicate (N - 1) ''from cache''\<rparr>)"
    by (simp add: N)
  from assms(4) have "cache_get (caches w c) k = Undefined \<or> cache_get (caches w c) k = v"
    by simp
  from run_calls_once_anywhere[OF assms(1,2,3,6,7) this] assms(4,8)
  show "\<exists>rs w'. run_calls (memoized c (call_pure f)) as w = Some (rs, w') \<and>
            count_list (calls w') (c, a) = count_list (calls w) (c, a) + 1 \<and>
            (\<forall>i<length as. as ! i = a \<longrightarrow> rs ! i = Inr v)"
    by auto
qed

theorem repeated_calls_invoke_fn_once_witness:
  "run_calls (memoized 0 (call_pure add)) (replicate 3 [Num 12, Num 3]) start =
     Some (replicate 3 (Inr (Num 15)),
           start\<lparr>caches := (caches start)(0 := (caches start 0)(''12---3'' \<mapsto> Num 15)),
                 calls := calls start @ [(0, [Num 12, Num 3])],
                 console := console start @ replicate (3 - 1) ''from cache''\<rparr>) \<and>
   (\<exists>rs w'. run_calls (memoized 0 (call_pure add))
               [[Num 12, Num 3], [Num 1, Num 23], [Num 12, Num 3]] start = Some (rs, w') \<and>
            count_list (calls w') (0, [Num 12, Num 3]) = 1 \<and>
            rs ! 0 = Inr (Num 15) \<and> rs ! 2 = Inr (Num 15))"
proof -
  let ?a = "[Num 12, Num 3]"
  let ?as = "[[Num 12, Num 3], [Num 1, Num 23], [Num 12, Num 3]]"
  have h1: "key ?a = Inr ''12---3''" by (simp add: eval_key)
  have h2: "add ?a = Some (Inr (Num 15))" by (simp add: add_def safe_def)
  have h3: "Num 15 \<noteq> Undefined" by simp
  have h4: "cache_get (caches start 0) ''12---3'' = Undefined"
    by (simp add: start_def cache_get_def)
  have h5: "1 \<le> (3::nat)" by simp
  have h6: "\<forall>b\<in>set ?as. add b \<noteq> None" by (simp add: add_def safe_def)
  have h7: "\<forall>b\<in>set ?as. key b = Inr ''12---3'' \<longrightarrow> b = ?a" by (simp add: eval_key)
  have h8: "?a \<in> set ?as" by simp
  note inst = repeated_calls_invoke_fn_once [OF h1 h2 h3 h4 h5 h6 h7 h8]
  from inst have 1: "run_calls (memoized 0 (call_pure add)) (replicate 3 ?a) start =
     Some (replicate 3 (Inr (Num 15)),
           start\<lparr>caches := (caches start)(0 := (caches start 0)(''12---3'' \<mapsto> Num 15)),
                 calls := calls start @ [(0, ?a)],
                 console := console start @ replicate (3 - 1) ''from cache''\<rparr>)"
    by (rule conjunct1)
  from inst obtain rs w' where
    r: "run_calls (memoized 0 (call_pure add)) ?as start = Some (rs, w')"
    and c: "count_list (calls w') (0, ?a) = count_list (calls start) (0, ?a) + 1"
    and n: "\<forall>i<length ?as. ?as ! i = ?a \<longrightarrow> rs ! i = Inr (Num 15)"
    by blast
  from c have "count_list (calls w') (0, ?a) = 1" by (simp add: start_def)
  moreover from n have "rs ! 0 = Inr (Num 15)" by auto
  moreover from n have "rs ! 2 = Inr (Num 15)" by auto
  ultimately show ?thesis using 1 r by blast
qed

section \<open>A function that throws\<close>




section \<open>A function that returns undefined\<close>

lemma memoized_logging_miss:
  "key a = Inr k \<Longrightarrow> cache_get (caches w c) k = Undefined \<Longrightarrow> f a = Some (Inr v) \<Longrightarrow>
   memoized c (logging f) a w =
     Some (Inr v, w\<lparr>caches := (caches w)(c := (caches w c)(k \<mapsto> v)),
                      calls := calls w @ [(c, a)],
                      console := console w @ [''fn called'']\<rparr>)"
  by (simp add: memoized_def logging_def)

lemma run_calls_logging_undefined:
  "key a = Inr k \<Longrightarrow> caches w c k = Some Undefined \<Longrightarrow> f a = Some (Inr Undefined) \<Longrightarrow>
   run_calls (memoized c (logging f)) (replicate n a) w =
     Some (replicate n (Inr Undefined),
           w\<lparr>calls := calls w @ replicate n (c, a),
             console := console w @ replicate n ''fn called''\<rparr>)"
proof (induction n arbitrary: w)
  case 0
  then show ?case by simp
next
  case (Suc n)
  let ?w1 = "w\<lparr>calls := calls w @ [(c, a)], console := console w @ [''fn called'']\<rparr>"
  from Suc.prems(2) have same: "(caches w)(c := (caches w c)(k \<mapsto> Undefined)) = caches w"
    by (simp add: map_upd_triv)
  from Suc.prems have "memoized c (logging f) a w = Some (Inr Undefined, ?w1)"
    by (simp add: memoized_logging_miss cache_get_def same)
  moreover have "run_calls (memoized c (logging f)) (replicate n a) ?w1 =
     Some (replicate n (Inr Undefined),
           ?w1\<lparr>calls := calls ?w1 @ replicate n (c, a),
               console := console ?w1 @ replicate n ''fn called''\<rparr>)"
    by (rule Suc.IH[of ?w1]) (use Suc.prems in simp_all)
  ultimately show ?case by (simp add: replicate_app_Cons_same)
qed

text \<open>
  Claim C9 says that if \<open>fn\<close> returns \<open>undefined\<close> for an argument tuple \<open>a\<close>, every call
  \<open>memoized(a)\<close> invokes \<open>fn\<close> again and the result is still correct. It fails where
  another tuple with the same key has stored a defined value: for the function that
  returns \<open>5\<close> without arguments and \<open>undefined\<close> otherwise, and that logs each of its
  invocations, \<open>memoized()\<close> stores \<open>5\<close> under the empty key, and \<open>memoized(undefined)\<close>
  then returns the stored \<open>5\<close> without invoking the function, which returns \<open>undefined\<close>
  for \<open>(undefined)\<close>.
\<close>

theorem undefined_result_is_recomputed_counterexample:
  "five_or_undefined [Undefined] = Some (Inr Undefined) \<and>
   run_calls (memoized 0 (logging five_or_undefined)) [[], [Undefined]] start =
     Some ([Inr (Num 5), Inr (Num 5)],
           start\<lparr>caches := (caches start)(0 := [[] \<mapsto> Num 5]),
                 calls := [(0, [])],
                 console := [''fn called'', ''from cache'']\<rparr>)"
  by (simp add: key_def memoized_def logging_def cache_get_def five_or_undefined_def start_def)

text \<open>
  Claim C9, amended: if \<open>fn\<close> returns \<open>undefined\<close> for an argument tuple \<open>a\<close> that has a
  key, and no defined value is stored under the key of \<open>a\<close>, then each of \<open>N \<ge> 1\<close> calls
  \<open>memoized(a)\<close> in a row invokes \<open>fn\<close> again and returns \<open>undefined\<close>: the entry exists
  and holds \<open>undefined\<close>, which the hit test takes for an absent entry. The invocations
  are those that \<open>fn\<close> itself logs, one line for each call.
\<close>

theorem undefined_result_is_recomputed:
  assumes "key a = Inr k" and "cache_get (caches w c) k = Undefined"
      and "f a = Some (Inr Undefined)" and "1 \<le> N"
  shows "run_calls (memoized c (logging f)) (replicate N a) w =
           Some (replicate N (Inr Undefined),
                 w\<lparr>caches := (caches w)(c := (caches w c)(k \<mapsto> Undefined)),
                   calls := calls w @ replicate N (c, a),
                   console := console w @ replicate N ''fn called''\<rparr>)"
proof -
  from \<open>1 \<le> N\<close> obtain n where N: "N = Suc n" by (cases N) auto
  let ?w1 = "w\<lparr>caches := (caches w)(c := (caches w c)(k \<mapsto> Undefined)),
               calls := calls w @ [(c, a)],
               console := console w @ [''fn called'']\<rparr>"
  from assms(1-3) have "memoized c (logging f) a w = Some (Inr Undefined, ?w1)"
    by (simp add: memoized_logging_miss)
  moreover have "run_calls (memoized c (logging f)) (replicate n a) ?w1 =
     Some (replicate n (Inr Undefined),
           ?w1\<lparr>calls := calls ?w1 @ replicate n (c, a),
               console := console ?w1 @ replicate n ''fn called''\<rparr>)"
    by (rule run_calls_logging_undefined[of a k ?w1 c f]) (use assms(1-3) in simp_all)
  ultimately show ?thesis by (simp add: N replicate_app_Cons_same)
qed

theorem undefined_result_is_recomputed_witness:
  "run_calls (memoized 0 (logging returns_undefined)) (replicate 3 [Num 1]) start =
     Some (replicate 3 (Inr Undefined),
           start\<lparr>caches := (caches start)(0 := (caches start 0)(''1'' \<mapsto> Undefined)),
                 calls := calls start @ replicate 3 (0, [Num 1]),
                 console := console start @ replicate 3 ''fn called''\<rparr>)"
proof -
  have h1: "key [Num 1] = Inr ''1''" by (simp add: eval_key)
  have h2: "cache_get (caches start 0) ''1'' = Undefined" by (simp add: start_def cache_get_def)
  have h3: "returns_undefined [Num 1] = Some (Inr Undefined)" by (simp add: returns_undefined_def)
  have h4: "1 \<le> (3::nat)" by simp
  show ?thesis
    using undefined_result_is_recomputed [of "[Num 1]" "''1''" start 0 returns_undefined 3]
      h1 h2 h3 h4 by blast
qed

section \<open>The life of a cache entry\<close>

lemma run_calls_entries:
  assumes "\<forall>a\<in>set as. f a \<noteq> None"
  shows "\<exists>rs w'. run_calls (memoized c (call_pure f)) as w = Some (rs, w') \<and>
           dom (caches w c) \<subseteq> dom (caches w' c) \<and>
           (\<forall>k v. caches w c k = Some v \<and> v \<noteq> Undefined \<longrightarrow> caches w' c k = Some v) \<and>
           (\<forall>k v. caches w' c k = Some v \<and> caches w c k \<noteq> Some v \<longrightarrow>
                  (\<exists>a\<in>set as. key a = Inr k \<and> f a = Some (Inr v)))"
  using assms
proof (induction as arbitrary: w)
  case Nil
  then show ?case by simp
next
  case (Cons a as)
  then have "f a \<noteq> None" by simp
  with memoized_pure_step[of f a c w] obtain r w1 where
    1: "memoized c (call_pure f) a w = Some (r, w1)" and
    2: "caches w1 = caches w \<or>
            (\<exists>k v. key a = Inr k \<and> f a = Some (Inr v) \<and> r = Inr v \<and>
                   cache_get (caches w c) k = Undefined \<and>
                   caches w1 = (caches w)(c := (caches w c)(k \<mapsto> v)))" by blast
  from Cons.prems have "\<forall>a\<in>set as. f a \<noteq> None" by simp
  from Cons.IH[OF this, of w1] obtain rs w' where
    3: "run_calls (memoized c (call_pure f)) as w1 = Some (rs, w')" and
    4: "dom (caches w1 c) \<subseteq> dom (caches w' c)" and
    5: "\<forall>k v. caches w1 c k = Some v \<and> v \<noteq> Undefined \<longrightarrow> caches w' c k = Some v" and
    6: "\<forall>k v. caches w' c k = Some v \<and> caches w1 c k \<noteq> Some v \<longrightarrow>
                  (\<exists>a\<in>set as. key a = Inr k \<and> f a = Some (Inr v))" by blast
  from 1 3 have run: "run_calls (memoized c (call_pure f)) (a # as) w = Some (r # rs, w')" by simp
  from 2 show ?case
  proof
    assume "caches w1 = caches w"
    with run 4 5 6 show ?thesis by simp
  next
    assume "\<exists>k v. key a = Inr k \<and> f a = Some (Inr v) \<and> r = Inr v \<and>
                   cache_get (caches w c) k = Undefined \<and>
                   caches w1 = (caches w)(c := (caches w c)(k \<mapsto> v))"
    then obtain k v where k: "key a = Inr k" and v: "f a = Some (Inr v)"
      and miss: "cache_get (caches w c) k = Undefined"
      and upd: "caches w1 c = (caches w c)(k \<mapsto> v)" by auto
    have A: "dom (caches w c) \<subseteq> dom (caches w' c)"
      using 4 upd by auto
    have B: "\<forall>k v. caches w c k = Some v \<and> v \<noteq> Undefined \<longrightarrow> caches w' c k = Some v"
    proof (intro allI impI)
      fix k' v' assume h: "caches w c k' = Some v' \<and> v' \<noteq> Undefined"
      with miss have "k' \<noteq> k" by (auto simp: cache_get_def)
      with h upd have "caches w1 c k' = Some v'" by simp
      with h 5 show "caches w' c k' = Some v'" by blast
    qed
    have C: "\<forall>k v. caches w' c k = Some v \<and> caches w c k \<noteq> Some v \<longrightarrow>
                  (\<exists>a\<in>set (a # as). key a = Inr k \<and> f a = Some (Inr v))"
    proof (intro allI impI)
      fix k' v' assume h: "caches w' c k' = Some v' \<and> caches w c k' \<noteq> Some v'"
      show "\<exists>a\<in>set (a # as). key a = Inr k' \<and> f a = Some (Inr v')"
      proof (cases "caches w1 c k' = Some v'")
        case False
        with h 6 show ?thesis by auto
      next
        case True
        with h upd have "k' = k \<and> v' = v" by (auto split: if_splits)
        with k v show ?thesis by simp
      qed
    qed
    from run A B C show ?thesis by blast
  qed
qed


text \<open>
  Claim C5 says that no operation changes the value stored under a present key. An
  entry that holds \<open>undefined\<close> is overwritten: after \<open>memoized()\<close> has stored
  \<open>undefined\<close> under the empty key, the call \<open>memoized(undefined)\<close>, with the same key,
  stores \<open>1\<close> there.
\<close>

theorem defined_entries_are_permanent_counterexample:
  "memoized 0 (call_pure count_or_undefined) [] start =
     Some (Inr Undefined,
           start\<lparr>caches := (caches start)(0 := [[] \<mapsto> Undefined]), calls := [(0, [])]\<rparr>) \<and>
   memoized 0 (call_pure count_or_undefined) [Undefined]
       (start\<lparr>caches := (caches start)(0 := [[] \<mapsto> Undefined]), calls := [(0, [])]\<rparr>) =
     Some (Inr (Num 1),
           start\<lparr>caches := (caches start)(0 := [[] \<mapsto> Num 1]),
                 calls := [(0, []), (0, [Undefined])]\<rparr>)"
  by (simp add: eval_key memoized_def call_pure_def cache_get_def count_or_undefined_def start_def)

text \<open>
  Claim C5, amended: a successful computation for a key without an entry creates the
  entry; through any sequence of calls of the wrapper of a pure function, no entry of
  its cache is removed; an entry that holds a value other than \<open>undefined\<close> keeps that
  value; and an entry is created or changed only by storing the value that the function
  returned for called arguments with that key.
\<close>

theorem defined_entries_are_permanent:
  assumes "\<forall>a\<in>set as. f a \<noteq> None"
  shows "(\<forall>a k v. key a = Inr k \<and> caches w c k = None \<and> f a = Some (Inr v) \<longrightarrow>
            (\<exists>w1. memoized c (call_pure f) a w = Some (Inr v, w1) \<and> caches w1 c k = Some v)) \<and>
         (\<exists>rs w'. run_calls (memoized c (call_pure f)) as w = Some (rs, w') \<and>
           dom (caches w c) \<subseteq> dom (caches w' c) \<and>
           (\<forall>k v. caches w c k = Some v \<and> v \<noteq> Undefined \<longrightarrow> caches w' c k = Some v) \<and>
           (\<forall>k v. caches w' c k = Some v \<and> caches w c k \<noteq> Some v \<longrightarrow>
                  (\<exists>a\<in>set as. key a = Inr k \<and> f a = Some (Inr v))))"
proof
  show "\<forall>a k v. key a = Inr k \<and> caches w c k = None \<and> f a = Some (Inr v) \<longrightarrow>
            (\<exists>w1. memoized c (call_pure f) a w = Some (Inr v, w1) \<and> caches w1 c k = Some v)"
    by (auto simp: memoized_miss_returns cache_get_def)
  show "\<exists>rs w'. run_calls (memoized c (call_pure f)) as w = Some (rs, w') \<and>
           dom (caches w c) \<subseteq> dom (caches w' c) \<and>
           (\<forall>k v. caches w c k = Some v \<and> v \<noteq> Undefined \<longrightarrow> caches w' c k = Some v) \<and>
           (\<forall>k v. caches w' c k = Some v \<and> caches w c k \<noteq> Some v \<longrightarrow>
                  (\<exists>a\<in>set as. key a = Inr k \<and> f a = Some (Inr v)))"
    using assms by (rule run_calls_entries)
qed

theorem defined_entries_are_permanent_witness:
  "\<exists>rs w'. run_calls (memoized 0 (call_pure add)) [[Num 12, Num 3], [Num 1, Num 23]]
               (start\<lparr>caches := (caches start)(0 := [''12---3'' \<mapsto> Num 15])\<rparr>) = Some (rs, w') \<and>
      ''12---3'' \<in> dom (caches w' 0) \<and>
      caches w' 0 ''12---3'' = Some (Num 15)"
proof -
  let ?w = "start\<lparr>caches := (caches start)(0 := [''12---3'' \<mapsto> Num 15])\<rparr>"
  have "\<forall>a\<in>set [[Num 12, Num 3], [Num 1, Num 23]]. add a \<noteq> None"
    by (simp add: add_def safe_def)
  from defined_entries_are_permanent [OF this, of ?w 0] obtain rs w' where
    run: "run_calls (memoized 0 (call_pure add)) [[Num 12, Num 3], [Num 1, Num 23]] ?w = Some (rs, w')"
    and sub: "dom (caches ?w 0) \<subseteq> dom (caches w' 0)"
    and keep: "\<forall>k v. caches ?w 0 k = Some v \<and> v \<noteq> Undefined \<longrightarrow> caches w' 0 k = Some v"
    by blast
  from sub have "''12---3'' \<in> dom (caches w' 0)" by auto
  moreover from keep have "caches w' 0 ''12---3'' = Some (Num 15)" by simp
  ultimately show ?thesis using run by blast
qed

section \<open>One cache for each wrapped function\<close>

lemma memoized_frame:
  assumes "c \<noteq> c'"
  shows "memoized c (call_pure f) a (w\<lparr>caches := (caches w)(c' := m)\<rparr>) =
         (case memoized c (call_pure f) a w of
            None \<Rightarrow> None
          | Some (r, w') \<Rightarrow> Some (r, w'\<lparr>caches := (caches w')(c' := m)\<rparr>))"
  using assms
  by (auto simp: memoized_def call_pure_def fun_upd_twist split: sum.splits option.splits)

lemma memoized_other_cache:
  assumes "c \<noteq> c'" and "memoized c (call_pure f) a w = Some (r, w')"
  shows "caches w' c' = caches w c'"
  using assms
  by (auto simp: memoized_def call_pure_def split: sum.splits option.splits if_splits)

lemma run_calls_frame:
  assumes "c \<noteq> c'" and "\<forall>a\<in>set as. f a \<noteq> None"
  shows "\<exists>rs w'. run_calls (memoized c (call_pure f)) as w = Some (rs, w') \<and>
           caches w' c' = caches w c' \<and>
           (\<forall>m. run_calls (memoized c (call_pure f)) as (w\<lparr>caches := (caches w)(c' := m)\<rparr>) =
                  Some (rs, w'\<lparr>caches := (caches w')(c' := m)\<rparr>))"
  using assms(2)
proof (induction as arbitrary: w)
  case Nil
  then show ?case by simp
next
  case (Cons a as)
  then have "f a \<noteq> None" by simp
  with memoized_pure_step[of f a c w] obtain r w1 where
    1: "memoized c (call_pure f) a w = Some (r, w1)" by blast
  from Cons.prems have "\<forall>a\<in>set as. f a \<noteq> None" by simp
  from Cons.IH[OF this, of w1] obtain rs w' where
    2: "run_calls (memoized c (call_pure f)) as w1 = Some (rs, w')" and
    3: "caches w' c' = caches w1 c'" and
    4: "\<forall>m. run_calls (memoized c (call_pure f)) as (w1\<lparr>caches := (caches w1)(c' := m)\<rparr>) =
                  Some (rs, w'\<lparr>caches := (caches w')(c' := m)\<rparr>)" by blast
  from assms(1) 1 have 5: "caches w1 c' = caches w c'" by (rule memoized_other_cache)
  have 6: "\<forall>m. memoized c (call_pure f) a (w\<lparr>caches := (caches w)(c' := m)\<rparr>) =
               Some (r, w1\<lparr>caches := (caches w1)(c' := m)\<rparr>)"
    using 1 by (simp add: memoized_frame[OF assms(1)])
  have 7: "run_calls (memoized c (call_pure f)) (a # as) (w\<lparr>caches := (caches w)(c' := m)\<rparr>) =
             Some (r # rs, w'\<lparr>caches := (caches w')(c' := m)\<rparr>)" for m
  proof -
    from 6 have "memoized c (call_pure f) a (w\<lparr>caches := (caches w)(c' := m)\<rparr>) =
               Some (r, w1\<lparr>caches := (caches w1)(c' := m)\<rparr>)" by blast
    moreover from 4 have "run_calls (memoized c (call_pure f)) as (w1\<lparr>caches := (caches w1)(c' := m)\<rparr>) =
                  Some (rs, w'\<lparr>caches := (caches w')(c' := m)\<rparr>)" by blast
    ultimately show ?thesis by simp
  qed
  from 1 2 have "run_calls (memoized c (call_pure f)) (a # as) w = Some (r # rs, w')" by simp
  moreover from 3 5 have "caches w' c' = caches w c'" by simp
  ultimately show ?case using 7 by blast
qed

text \<open>
  Claim C6: \<open>memoize(fn)\<close> creates one new, empty cache, under a reference that no
  earlier closure holds, leaves every other cache as it is, and returns the closure
  over that cache; wrapping the same function again gives a closure over another
  cache. The calls of an instance (of a pure function) leave the cache of any other
  instance as it is, and their results do not depend on what that cache holds.
\<close>

theorem instances_have_separate_caches:
  "fst (memoize fn w) = memoized (next_ref w) fn \<and>
   caches (snd (memoize fn w)) (next_ref w) = Map.empty \<and>
   next_ref (snd (memoize fn w)) = Suc (next_ref w) \<and>
   (\<forall>c. c \<noteq> next_ref w \<longrightarrow> caches (snd (memoize fn w)) c = caches w c) \<and>
   fst (memoize fn (snd (memoize fn w))) = memoized (Suc (next_ref w)) fn \<and>
   (c \<noteq> c' \<longrightarrow> (\<forall>a\<in>set as. f a \<noteq> None) \<longrightarrow>
      (\<exists>rs w'. run_calls (memoized c (call_pure f)) as w = Some (rs, w') \<and>
           caches w' c' = caches w c' \<and>
           (\<forall>m. run_calls (memoized c (call_pure f)) as (w\<lparr>caches := (caches w)(c' := m)\<rparr>) =
                  Some (rs, w'\<lparr>caches := (caches w')(c' := m)\<rparr>))))"
  using run_calls_frame[of c c' as f w] by (simp add: memoize_def)

theorem instances_have_separate_caches_witness:
  "\<exists>rs w'. run_calls (memoized 0 (call_pure add)) [[Num 12, Num 3]]
              (start\<lparr>caches := (caches start)(1 := [''12---3'' \<mapsto> Num 99])\<rparr>) = Some (rs, w') \<and>
           rs = [Inr (Num 15)] \<and> caches w' 1 = [''12---3'' \<mapsto> Num 99] \<and>
           caches w' 0 = [''12---3'' \<mapsto> Num 15]"
proof -
  have "\<forall>a\<in>set [[Num 12, Num 3]]. add a \<noteq> None" by (simp add: add_def safe_def)
  moreover have "(0::nat) \<noteq> 1" by simp
  ultimately obtain rs w' where
    1: "run_calls (memoized 0 (call_pure add)) [[Num 12, Num 3]] start = Some (rs, w')" and
    2: "\<forall>m. run_calls (memoized 0 (call_pure add)) [[Num 12, Num 3]]
              (start\<lparr>caches := (caches start)(1 := m)\<rparr>) =
            Some (rs, w'\<lparr>caches := (caches w')(1 := m)\<rparr>)"
    using instances_have_separate_caches [of "call_pure add" start 0 1 "[[Num 12, Num 3]]" add]
    by blast
  from 1 have "rs = [Inr (Num 15)]" and "caches w' 0 = [''12---3'' \<mapsto> Num 15]"
    by (auto simp: eval_key memoized_def call_pure_def cache_get_def add_def safe_def start_def)
  with 2 show ?thesis by simp
qed

section \<open>The memoized factorial\<close>

lemma factorial_5_fresh:
  "caches w c = Map.empty \<Longrightarrow>
   factorial (Suc (Suc (Suc (Suc (Suc (Suc d)))))) c [Num 5] w =
     Some (Inr (Num 120),
       w\<lparr>caches := (caches w)(c := [''0'' \<mapsto> Num 1, ''1'' \<mapsto> Num 1, ''2'' \<mapsto> Num 2,
                                      ''3'' \<mapsto> Num 6, ''4'' \<mapsto> Num 24, ''5'' \<mapsto> Num 120]),
         calls := calls w @ [(c, [Num 5]), (c, [Num 4]), (c, [Num 3]),
                             (c, [Num 2]), (c, [Num 1]), (c, [Num 0])]\<rparr>)"
  by (simp add: eval_key memoized_def cache_get_def factorial_fn_def safe_def)

lemma keys_0_to_5:
  "(\<lambda>n. key [Num n]) ` {0..5} = Inr ` {''0'', ''1'', ''2'', ''3'', ''4'', ''5''}"
proof -
  have "{0..5} = set [0..5::int]" by (simp only: set_upto)
  also have "\<dots> = {0, 1, 2, 3, 4, 5}" by (simp add: upto_rec1)
  finally show ?thesis by (simp add: eval_key)
qed

text \<open>
  Claim C7: with an empty cache and room for six nested calls, \<open>factorial(5)\<close> returns
  \<open>120\<close> and leaves cache entries exactly for the keys of the arguments \<open>0\<close> to \<open>5\<close>,
  after one invocation of the underlying function for each of them; a call
  \<open>factorial(3)\<close> after it returns the stored \<open>6\<close>, invokes nothing and adds no entry
  (it only logs \<open>from cache\<close>).
\<close>

theorem factorial_5_then_3:
  assumes "caches w c = Map.empty" and "6 \<le> d" and "1 \<le> d'"
  shows "\<exists>w5. factorial d c [Num 5] w = Some (Inr (Num 120), w5) \<and>
           caches w5 c = [''0'' \<mapsto> Num 1, ''1'' \<mapsto> Num 1, ''2'' \<mapsto> Num 2,
                          ''3'' \<mapsto> Num 6, ''4'' \<mapsto> Num 24, ''5'' \<mapsto> Num 120] \<and>
           Inr ` dom (caches w5 c) = (\<lambda>n. key [Num n]) ` {0..5} \<and>
           calls w5 = calls w @ [(c, [Num 5]), (c, [Num 4]), (c, [Num 3]),
                                 (c, [Num 2]), (c, [Num 1]), (c, [Num 0])] \<and>
           factorial d' c [Num 3] w5 =
             Some (Inr (Num 6), w5\<lparr>console := console w5 @ [''from cache'']\<rparr>)"
proof -
  from \<open>6 \<le> d\<close> obtain e where d: "d = Suc (Suc (Suc (Suc (Suc (Suc e)))))"
  proof -
    from \<open>6 \<le> d\<close> have "d = 6 + (d - 6)" by simp
    then show ?thesis using that[of "d - 6"] by (simp add: eval_nat_numeral)
  qed
  from \<open>1 \<le> d'\<close> obtain e' where d': "d' = Suc e'" by (cases d') auto
  let ?m = "[''0'' \<mapsto> Num 1, ''1'' \<mapsto> Num 1, ''2'' \<mapsto> Num 2,
             ''3'' \<mapsto> Num 6, ''4'' \<mapsto> Num 24, ''5'' \<mapsto> Num (120::int)]"
  let ?w5 = "w\<lparr>caches := (caches w)(c := ?m),
         calls := calls w @ [(c, [Num 5]), (c, [Num 4]), (c, [Num 3]),
                             (c, [Num 2]), (c, [Num 1]), (c, [Num 0])]\<rparr>"
  have 1: "factorial d c [Num 5] w = Some (Inr (Num 120), ?w5)"
    unfolding d using assms(1) by (rule factorial_5_fresh)
  have 2: "caches ?w5 c = ?m" by simp
  have 3: "Inr ` dom (caches ?w5 c) = (\<lambda>n. key [Num n]) ` {0..5}"
    by (simp add: keys_0_to_5) blast
  have 4: "factorial d' c [Num 3] ?w5 =
             Some (Inr (Num 6), ?w5\<lparr>console := console ?w5 @ [''from cache'']\<rparr>)"
    unfolding d' by (simp add: eval_key memoized_def cache_get_def)
  from 1 2 3 4 show ?thesis by (intro exI[of _ ?w5]) simp
qed

theorem factorial_5_then_3_witness:
  "\<exists>w5. factorial 6 0 [Num 5] start = Some (Inr (Num 120), w5) \<and>
         dom (caches w5 0) = {''0'', ''1'', ''2'', ''3'', ''4'', ''5''} \<and>
         factorial 1 0 [Num 3] w5 =
           Some (Inr (Num 6), w5\<lparr>console := console w5 @ [''from cache'']\<rparr>)"
proof -
  have "caches start 0 = Map.empty" by (simp add: start_def)
  from factorial_5_then_3 [OF this, of 6 1] obtain w5 where
    "factorial 6 0 [Num 5] start = Some (Inr (Num 120), w5)"
    "caches w5 0 = [''0'' \<mapsto> Num 1, ''1'' \<mapsto> Num 1, ''2'' \<mapsto> Num 2,
                          ''3'' \<mapsto> Num 6, ''4'' \<mapsto> Num 24, ''5'' \<mapsto> Num 120]"
    "factorial 1 0 [Num 3] w5 =
           Some (Inr (Num 6), w5\<lparr>console := console w5 @ [''from cache'']\<rparr>)"
    by auto
  then show ?thesis by (intro exI[of _ w5]) auto
qed

section \<open>Options\<close>

lemma code_and_spec_step:
  assumes inv: "\<forall>k v. caches w c k = Some v \<longrightarrow> v \<noteq> Undefined"
      and r: "f a = Some r" and def: "r \<noteq> Inr Undefined"
  shows "\<exists>r' w1. memoized c (call_pure f) a w = Some (r', w1) \<and>
           spec_memoized key c (call_pure f) a (w\<lparr>console := x\<rparr>) =
             Some (r', w1\<lparr>console := x\<rparr>) \<and>
           (\<forall>k v. caches w1 c k = Some v \<longrightarrow> v \<noteq> Undefined)"
proof (cases "key a")
  case (Inl e)
  with inv show ?thesis by (simp add: memoized_def spec_memoized_def)
next
  case (Inr k)
  show ?thesis
  proof (cases "caches w c k")
    case None
    then have miss: "cache_get (caches w c) k = Undefined" by (simp add: cache_get_def)
    show ?thesis
    proof (cases r)
      case (Inl e)
      with Inr None miss r inv show ?thesis
        by (simp add: memoized_def spec_memoized_def call_pure_def)
    next
      case r': (Inr v)
      with def have "v \<noteq> Undefined" by simp
      with Inr None miss r r' inv show ?thesis
        by (simp add: memoized_def spec_memoized_def call_pure_def)
    qed
  next
    case (Some v)
    with inv have "v \<noteq> Undefined" by blast
    with Some have hit: "cache_get (caches w c) k = v" "cache_get (caches w c) k \<noteq> Undefined"
      by (simp_all add: cache_get_def)
    with Inr Some inv show ?thesis
      by (simp add: memoized_def spec_memoized_def)
  qed
qed

lemma code_and_spec_run:
  assumes "\<forall>a\<in>set as. f a \<noteq> None \<and> f a \<noteq> Some (Inr Undefined)"
      and "\<forall>k v. caches w c k = Some v \<longrightarrow> v \<noteq> Undefined"
  shows "\<exists>rs w'. run_calls (memoized c (call_pure f)) as w = Some (rs, w') \<and>
           run_calls (spec_memoized key c (call_pure f)) as (w\<lparr>console := x\<rparr>) =
             Some (rs, w'\<lparr>console := x\<rparr>)"
  using assms
proof (induction as arbitrary: w)
  case Nil
  then show ?case by simp
next
  case (Cons a as)
  from Cons.prems(1) obtain r where r: "f a = Some r" and d: "r \<noteq> Inr Undefined" by auto
  from code_and_spec_step[of w c f a r x] Cons.prems(2) r d obtain r' w1 where
    1: "memoized c (call_pure f) a w = Some (r', w1)" and
    2: "spec_memoized key c (call_pure f) a (w\<lparr>console := x\<rparr>) = Some (r', w1\<lparr>console := x\<rparr>)" and
    3: "\<forall>k v. caches w1 c k = Some v \<longrightarrow> v \<noteq> Undefined" by blast
  from Cons.prems(1) have "\<forall>a\<in>set as. f a \<noteq> None \<and> f a \<noteq> Some (Inr Undefined)" by simp
  from Cons.IH[OF this 3] obtain rs w' where
    4: "run_calls (memoized c (call_pure f)) as w1 = Some (rs, w')" and
    5: "run_calls (spec_memoized key c (call_pure f)) as (w1\<lparr>console := x\<rparr>) =
             Some (rs, w'\<lparr>console := x\<rparr>)" by blast
  from 1 4 have "run_calls (memoized c (call_pure f)) (a # as) w = Some (r' # rs, w')" by simp
  moreover from 2 5 have "run_calls (spec_memoized key c (call_pure f)) (a # as) (w\<lparr>console := x\<rparr>) =
             Some (r' # rs, w'\<lparr>console := x\<rparr>)" by simp
  ultimately show ?case by blast
qed

text \<open>
  Claim C8 says that the wrap operation accepts options \<open>keyFn\<close> and \<open>cacheFactory\<close>, so
  that callers can override the key derivation and the cache. The code does not: with
  options that ask for one key for all calls, \<open>add(12, 3)\<close> and \<open>add(1, 23)\<close> still get
  the two entries \<open>12---3\<close> and \<open>1---23\<close> and the results \<open>15\<close> and \<open>24\<close>, where the
  specified wrap invokes \<open>add\<close> once, keeps the one entry \<open>k\<close> and returns \<open>15\<close> twice.
\<close>

theorem memoize_ignores_options_counterexample:
  "run_calls (fst (memoize_call (call_pure add) one_key_options start))
       [[Num 12, Num 3], [Num 1, Num 23]]
       (snd (memoize_call (call_pure add) one_key_options start)) =
     Some ([Inr (Num 15), Inr (Num 24)],
           start\<lparr>caches := (caches start)(0 := [''12---3'' \<mapsto> Num 15, ''1---23'' \<mapsto> Num 24]),
                 next_ref := 1,
                 calls := [(0, [Num 12, Num 3]), (0, [Num 1, Num 23])]\<rparr>) \<and>
   run_calls (fst (spec_wrap (call_pure add) one_key_options start))
       [[Num 12, Num 3], [Num 1, Num 23]]
       (snd (spec_wrap (call_pure add) one_key_options start)) =
     Some ([Inr (Num 15), Inr (Num 15)],
           start\<lparr>caches := (caches start)(0 := [''k'' \<mapsto> Num 15]),
                 next_ref := 1,
                 calls := [(0, [Num 12, Num 3])]\<rparr>)"
  by (simp add: memoize_call_def memoize_def spec_wrap_def one_key_options_def
      spec_memoized_def memoized_def eval_key cache_get_def call_pure_def add_def safe_def start_def)

text \<open>
  Claim C8, amended: \<open>memoize\<close> takes the function only. Whatever options are passed, the
  wrapper of a pure function behaves as the specified wrap does with \<open>keyFn\<close> fixed to
  the join of the \<open>JSON.stringify\<close> texts with \<open>---\<close> and \<open>cacheFactory\<close> fixed to a new
  empty plain object: on every sequence of calls for which the function completes and
  does not return \<open>undefined\<close>, both give the same results, invoke the function for the
  same calls and end with the same caches; they differ only in the lines that the code
  logs for its cache hits.
\<close>

theorem memoize_ignores_options:
  assumes "\<forall>a\<in>set as. f a \<noteq> None \<and> f a \<noteq> Some (Inr Undefined)"
  shows "\<exists>rs w'.
           run_calls (fst (memoize_call (call_pure f) opts w)) as
             (snd (memoize_call (call_pure f) opts w)) = Some (rs, w') \<and>
           run_calls (fst (spec_wrap (call_pure f) built_in_options w)) as
             (snd (spec_wrap (call_pure f) built_in_options w)) =
             Some (rs, w'\<lparr>console := console w\<rparr>)"
proof -
  let ?w0 = "w\<lparr>caches := (caches w)(next_ref w := Map.empty), next_ref := Suc (next_ref w)\<rparr>"
  have inv: "\<forall>k v. caches ?w0 (next_ref w) k = Some v \<longrightarrow> v \<noteq> Undefined" by simp
  from code_and_spec_run[OF assms inv, of "console w"] obtain rs w' where
    1: "run_calls (memoized (next_ref w) (call_pure f)) as ?w0 = Some (rs, w')" and
    2: "run_calls (spec_memoized key (next_ref w) (call_pure f)) as (?w0\<lparr>console := console w\<rparr>) =
             Some (rs, w'\<lparr>console := console w\<rparr>)" by blast
  have "?w0\<lparr>console := console w\<rparr> = ?w0" by simp
  with 2 have 3: "run_calls (spec_memoized key (next_ref w) (call_pure f)) as ?w0 =
             Some (rs, w'\<lparr>console := console w\<rparr>)" by simp
  from 1 3 show ?thesis
    by (simp add: memoize_call_def memoize_def spec_wrap_def built_in_options_def)
qed

theorem memoize_ignores_options_witness:
  "\<exists>rs w'.
     run_calls (fst (memoize_call (call_pure add) one_key_options start))
       [[Num 12, Num 3], [Num 1, Num 23], [Num 12, Num 3]]
       (snd (memoize_call (call_pure add) one_key_options start)) = Some (rs, w') \<and>
     run_calls (fst (spec_wrap (call_pure add) built_in_options start))
       [[Num 12, Num 3], [Num 1, Num 23], [Num 12, Num 3]]
       (snd (spec_wrap (call_pure add) built_in_options start)) =
       Some (rs, w'\<lparr>console := console start\<rparr>) \<and>
     rs = [Inr (Num 15), Inr (Num 24), Inr (Num 15)] \<and>
     console w' = [''from cache'']"
proof -
  let ?as = "[[Num 12, Num 3], [Num 1, Num 23], [Num 12, Num 3]]"
  have h: "\<forall>a\<in>set ?as. add a \<noteq> None \<and> add a \<noteq> Some (Inr Undefined)"
    by (simp add: add_def safe_def)
  from memoize_ignores_options [OF h, of one_key_options start] obtain rs w' where
    1: "run_calls (fst (memoize_call (call_pure add) one_key_options start)) ?as
          (snd (memoize_call (call_pure add) one_key_options start)) = Some (rs, w')" and
    2: "run_calls (fst (spec_wrap (call_pure add) built_in_options start)) ?as
          (snd (spec_wrap (call_pure add) built_in_options start)) =
          Some (rs, w'\<lparr>console := console start\<rparr>)" by blast
  from 1 have "rs = [Inr (Num 15), Inr (Num 24), Inr (Num 15)]" and "console w' = [''from cache'']"
    by (auto simp: memoize_call_def memoize_def memoized_def eval_key cache_get_def
        call_pure_def add_def safe_def start_def)
  with 1 2 show ?thesis by blast
qed

section \<open>The texts of numbers and strings\<close>

lemma digit_mem: "d < 10 \<Longrightarrow> digit d \<in> set ''0123456789''"
proof -
  assume "d < 10"
  then have "d \<in> {0, 1, 2, 3, 4, 5, 6, 7, 8, 9}" by auto
  then show ?thesis by (auto simp: digit_def)
qed

lemma digit_inj: "d < 16 \<Longrightarrow> e < 16 \<Longrightarrow> digit d = digit e \<Longrightarrow> d = e"
  by (simp add: digit_def nth_eq_iff_index_eq)

lemma digits_set: "set (digits n) \<subseteq> set ''0123456789''"
proof (induction n rule: digits.induct)
  case (1 n)
  show ?case
  proof (cases "n < 10")
    case True
    then show ?thesis using digit_mem[of n] by (simp add: digits.simps[of n])
  next
    case False
    moreover have "digit (n mod 10) \<in> set ''0123456789''" by (rule digit_mem) simp
    ultimately show ?thesis using 1 by (simp add: digits.simps[of n])
  qed
qed

lemma digits_nonempty: "digits n \<noteq> []"
  by (simp add: digits.simps[of n])

lemma digits_length: "length (digits n) = 1 \<longleftrightarrow> n < 10"
  using digits_nonempty[of "n div 10"] by (simp add: digits.simps[of n])

lemma digits_inj: "digits m = digits n \<Longrightarrow> m = n"
proof (induction m arbitrary: n rule: digits.induct)
  case (1 m)
  show ?case
  proof (cases "m < 10")
    case True
    with 1(2) have "n < 10" using digits_length[of m] digits_length[of n] by simp
    with True 1(2) show ?thesis by (simp add: digits.simps[of m] digits.simps[of n] digit_inj)
  next
    case False
    with 1(2) have n: "\<not> n < 10" using digits_length[of m] digits_length[of n] by simp
    with False 1(2) have "digits (m div 10) = digits (n div 10)"
      and "digit (m mod 10) = digit (n mod 10)"
      by (simp_all add: digits.simps[of m] digits.simps[of n])
    with False 1(1) have "m div 10 = n div 10" and "m mod 10 = n mod 10"
      by (auto intro: digit_inj)
    then show ?thesis by (metis div_mult_mod_eq)
  qed
qed

lemma Number_toString_nonempty: "Number_toString n \<noteq> []"
  by (simp add: Number_toString_def digits_nonempty)

lemma digits_hd: "hd (digits k) \<in> set ''0123456789''"
proof -
  have "hd (digits k) \<in> set (digits k)" by (simp add: digits_nonempty)
  with digits_set[of k] show ?thesis by blast
qed

lemma Number_toString_hd: "hd (Number_toString n) \<in> set ''-0123456789''"
  using digits_hd[of "nat n"] by (auto simp: Number_toString_def)

lemma Number_toString_tl: "CHR ''-'' \<notin> set (tl (Number_toString n))"
proof -
  have "CHR ''-'' \<notin> set (digits k)" for k using digits_set[of k] by auto
  moreover have "set (tl xs) \<subseteq> set xs" for xs :: string by (cases xs) auto
  ultimately show ?thesis by (auto simp: Number_toString_def)
qed

lemma Number_toString_inj: "Number_toString m = Number_toString n \<Longrightarrow> m = n"
proof -
  assume eq: "Number_toString m = Number_toString n"
  have nd: "hd (digits k) \<noteq> CHR ''-''" for k
    using digits_hd[of k] by auto
  have sign: "hd (Number_toString k) = CHR ''-'' \<longleftrightarrow> k < 0" for k
    using nd[of "nat k"] by (simp add: Number_toString_def)
  from eq have "hd (Number_toString m) = CHR ''-'' \<longleftrightarrow> hd (Number_toString n) = CHR ''-''"
    by simp
  then have neg: "m < 0 \<longleftrightarrow> n < 0" by (simp only: sign)
  show ?thesis
  proof (cases "m < 0")
    case True
    with neg eq have "digits (nat (- m)) = digits (nat (- n))" by (simp add: Number_toString_def)
    then have "nat (- m) = nat (- n)" by (rule digits_inj)
    with True neg show ?thesis by simp
  next
    case False
    with neg eq have "digits (nat m) = digits (nat n)" by (simp add: Number_toString_def)
    then have "nat m = nat n" by (rule digits_inj)
    with False neg show ?thesis by simp
  qed
qed

lemma QuoteJSONChar_hd:
  "QuoteJSONChar c \<noteq> [] \<and> hd (QuoteJSONChar c) \<noteq> CHR 0x22"
  by (simp add: QuoteJSONChar_def)

lemma of_char_div_mod_inj:
  assumes "(of_char c :: nat) div 16 = of_char d div 16"
      and "(of_char c :: nat) mod 16 = of_char d mod 16"
  shows "c = d"
proof -
  have "(of_char c :: nat) = of_char d" using assms by (metis div_mult_mod_eq)
  then show ?thesis by simp
qed

lemma QuoteJSONChar_prefix:
  "QuoteJSONChar c @ x = QuoteJSONChar d @ y \<Longrightarrow> c = d"
  by (auto simp: QuoteJSONChar_def split: if_splits
           dest!: digit_inj[rotated 2] intro: of_char_div_mod_inj)

lemma escaped_prefix:
  "concat (map QuoteJSONChar a) @ CHR 0x22 # x = concat (map QuoteJSONChar b) @ CHR 0x22 # y
   \<Longrightarrow> a = b"
proof (induction a arbitrary: b)
  case Nil
  show ?case
  proof (cases b)
    case (Cons d b')
    with Nil have "CHR 0x22 = hd (QuoteJSONChar d @ concat (map QuoteJSONChar b') @ CHR 0x22 # y)"
      by (metis append_Nil append_assoc concat.simps(1,2) list.map(1,2) list.sel(1))
    with QuoteJSONChar_hd[of d] show ?thesis by simp
  qed simp
next
  case (Cons c a')
  show ?case
  proof (cases b)
    case Nil
    with Cons.prems
    have "CHR 0x22 = hd (QuoteJSONChar c @ concat (map QuoteJSONChar a') @ CHR 0x22 # x)"
      by (metis append_Nil append_assoc concat.simps(1,2) list.map(1,2) list.sel(1))
    with QuoteJSONChar_hd[of c] show ?thesis by simp
  next
    case (Cons d b')
    with Cons.prems have eq: "QuoteJSONChar c @ (concat (map QuoteJSONChar a') @ CHR 0x22 # x) =
        QuoteJSONChar d @ (concat (map QuoteJSONChar b') @ CHR 0x22 # y)" by simp
    then have cd: "c = d" by (rule QuoteJSONChar_prefix)
    with eq have "concat (map QuoteJSONChar a') @ CHR 0x22 # x =
                  concat (map QuoteJSONChar b') @ CHR 0x22 # y" by simp
    then have "a' = b'" by (rule Cons.IH)
    with cd Cons show ?thesis by simp
  qed
qed

lemma QuoteJSONString_prefix:
  "QuoteJSONString a @ x = QuoteJSONString b @ y \<Longrightarrow> a = b"
  by (auto simp: QuoteJSONString_def dest: escaped_prefix)

section \<open>Keys of primitive arguments\<close>

lemma JSON_stringify_primitive:
  "primitive v \<Longrightarrow> JSON_stringify v = Inr (Some (text_of v))"
  by (cases v) (simp_all add: text_of_def)

lemma text_of_nonempty: "primitive v \<Longrightarrow> text_of v \<noteq> []"
  by (cases v) (simp_all add: text_of_def Number_toString_nonempty QuoteJSONString_def)

lemma dash_tail_prefix:
  assumes "s \<noteq> []" and "t \<noteq> []"
      and "CHR ''-'' \<notin> set (tl s)" and "CHR ''-'' \<notin> set (tl t)"
      and "x = [] \<or> hd x = CHR ''-''" and "y = [] \<or> hd y = CHR ''-''"
      and "s @ x = t @ y"
  shows "s = t"
proof -
  from \<open>s @ x = t @ y\<close> obtain us where
    "s = t @ us \<and> us @ x = y \<or> s @ us = t \<and> x = us @ y"
    by (auto simp: append_eq_append_conv2)
  then show ?thesis
  proof
    assume a: "s = t @ us \<and> us @ x = y"
    show ?thesis
    proof (cases us)
      case Nil with a show ?thesis by simp
    next
      case (Cons u us')
      with a assms(6) have "u = CHR ''-''" by auto
      with a Cons assms(2) have "CHR ''-'' \<in> set (tl s)" by (cases t) auto
      with assms(3) show ?thesis by simp
    qed
  next
    assume a: "s @ us = t \<and> x = us @ y"
    show ?thesis
    proof (cases us)
      case Nil with a show ?thesis by simp
    next
      case (Cons u us')
      with a assms(5) have "u = CHR ''-''" by auto
      with a Cons assms(1) have "CHR ''-'' \<in> set (tl t)" by (cases s) auto
      with assms(4) show ?thesis by simp
    qed
  qed
qed

lemma text_of_Str_hd: "hd (text_of (Str a)) = CHR 0x22"
  by (simp add: text_of_def QuoteJSONString_def)

lemma text_of_plain:
  assumes "primitive v" and "\<forall>a. v \<noteq> Str a"
  shows "hd (text_of v) \<noteq> CHR 0x22 \<and> CHR ''-'' \<notin> set (tl (text_of v))"
proof (cases v)
  case (Num n)
  with Number_toString_hd[of n] Number_toString_tl[of n] show ?thesis
    by (auto simp: text_of_def)
qed (use assms in \<open>auto simp: text_of_def\<close>)

lemma text_of_plain_inj:
  assumes "primitive u" and "\<forall>a. u \<noteq> Str a" and "primitive v" and "\<forall>a. v \<noteq> Str a"
      and "text_of u = text_of v"
  shows "u = v"
proof -
  have "Number_toString n \<noteq> ''null'' \<and> Number_toString n \<noteq> ''true'' \<and>
        Number_toString n \<noteq> ''false''" for n
    using Number_toString_hd[of n] by auto
  then have num: "\<forall>n. Number_toString n \<noteq> ''null'' \<and> Number_toString n \<noteq> ''true'' \<and>
        Number_toString n \<noteq> ''false''" by blast
  show ?thesis
  proof (cases u)
    case Null
    with assms num show ?thesis
      by (cases v) (auto simp: text_of_def split: if_splits)
  next
    case (Bool b)
    with assms num show ?thesis
      by (cases v) (auto simp: text_of_def split: if_splits)
  next
    case (Num n)
    with assms num show ?thesis
      by (cases v) (auto simp: text_of_def dest: Number_toString_inj split: if_splits)
  qed (use assms in simp_all)
qed

lemma text_of_prefix:
  assumes "primitive u" and "primitive v"
      and "x = [] \<or> hd x = CHR ''-''" and "y = [] \<or> hd y = CHR ''-''"
      and eq: "text_of u @ x = text_of v @ y"
  shows "u = v"
proof -
  from assms(1,2) have ne: "text_of u \<noteq> []" "text_of v \<noteq> []"
    by (simp_all add: text_of_nonempty)
  have "hd (text_of u @ x) = hd (text_of u)" "hd (text_of v @ y) = hd (text_of v)"
    using ne by simp_all
  with eq have hd_eq: "hd (text_of u) = hd (text_of v)" by simp
  show ?thesis
  proof (cases "\<exists>a. u = Str a")
    case True
    then obtain a where a: "u = Str a" by blast
    with hd_eq have "hd (text_of v) = CHR 0x22" by (simp add: text_of_Str_hd)
    with text_of_plain[OF assms(2)] obtain b where b: "v = Str b" by blast
    from eq a b have "QuoteJSONString a @ x = QuoteJSONString b @ y" by (simp add: text_of_def)
    then have "a = b" by (rule QuoteJSONString_prefix)
    with a b show ?thesis by simp
  next
    case False
    then have u: "\<forall>a. u \<noteq> Str a" by simp
    with hd_eq text_of_plain[OF assms(1)] have "hd (text_of v) \<noteq> CHR 0x22" by simp
    then have v: "\<forall>a. v \<noteq> Str a" by (auto simp: text_of_Str_hd)
    from text_of_plain[OF assms(1) u] text_of_plain[OF assms(2) v]
    have "CHR ''-'' \<notin> set (tl (text_of u))" and "CHR ''-'' \<notin> set (tl (text_of v))"
      by simp_all
    with ne have "text_of u = text_of v"
      using assms(3,4) eq by (rule dash_tail_prefix)
    with assms(1,2) u v show ?thesis using text_of_plain_inj[of u v] by blast
  qed
qed

lemma join_Cons:
  "join sep (Some s # xs) = s @ (if xs = [] then [] else sep @ join sep xs)"
  by (cases xs) simp_all

lemma sequence_primitive:
  "\<forall>v\<in>set a. primitive v \<Longrightarrow>
   sequence (map JSON_stringify a) = Inr (map (\<lambda>v. Some (text_of v)) a)"
  by (induction a) (simp_all add: JSON_stringify_primitive)

lemma key_primitive:
  "\<forall>v\<in>set a. primitive v \<Longrightarrow> key a = Inr (join ''---'' (map (\<lambda>v. Some (text_of v)) a))"
  by (simp add: key_def sequence_primitive)

lemma join_text_inj:
  assumes "\<forall>v\<in>set a. primitive v" and "\<forall>v\<in>set b. primitive v"
      and "join ''---'' (map (\<lambda>v. Some (text_of v)) a) =
           join ''---'' (map (\<lambda>v. Some (text_of v)) b)"
  shows "a = b"
  using assms
proof (induction a arbitrary: b)
  case Nil
  then show ?case
    by (cases b) (auto simp: join_Cons text_of_nonempty)
next
  case (Cons u a')
  show ?case
  proof (cases b)
    case Nil
    with Cons.prems show ?thesis by (auto simp: join_Cons text_of_nonempty)
  next
    case (Cons v b')
    let ?J = "\<lambda>vs. join ''---'' (map (\<lambda>v. Some (text_of v)) vs)"
    let ?X = "if a' = [] then [] else ''---'' @ ?J a'"
    let ?Y = "if b' = [] then [] else ''---'' @ ?J b'"
    from Cons.prems(3) Cons have eq: "text_of u @ ?X = text_of v @ ?Y"
      by (simp add: join_Cons)
    from Cons.prems(1,2) Cons have pu: "primitive u" and pv: "primitive v" by simp_all
    have "u = v"
      by (rule text_of_prefix[OF pu pv _ _ eq]) simp_all
    with eq have XY: "?X = ?Y" by simp
    have "a' = b'"
    proof (cases "a' = []")
      case True
      with XY show ?thesis by (auto split: if_splits)
    next
      case False
      with XY have "b' \<noteq> []" and "?J a' = ?J b'" by (auto split: if_splits)
      with Cons.IH[of b'] Cons.prems(1,2) Cons show ?thesis by simp
    qed
    with \<open>u = v\<close> Cons show ?thesis by simp
  qed
qed

lemma key_primitive_inj:
  "\<forall>v\<in>set a. primitive v \<Longrightarrow> \<forall>v\<in>set b. primitive v \<Longrightarrow> key a = key b \<Longrightarrow> a = b"
  by (rule join_text_inj) (simp_all add: key_primitive)

lemma no_delimiter_inside:
  assumes "primitive v" and "\<forall>a. v \<noteq> Str a"
  shows "\<forall>p q. text_of v \<noteq> p @ ''---'' @ q"
proof (intro allI notI)
  fix p q assume eq: "text_of v = p @ ''---'' @ q"
  have "CHR ''-'' \<in> set (tl (p @ ''---'' @ q))" by (cases p) auto
  with eq text_of_plain[OF assms] show False by simp
qed

section \<open>Distinct keys for distinct primitive arguments\<close>

text \<open>
  Claim C4 says that the delimiter cannot appear inside a serialized argument and that
  distinct argument tuples never collide on a key. The serialization of the string
  \<open>---\<close> contains the delimiter; the distinct tuples \<open>()\<close> and \<open>(undefined)\<close> have
  the same key; and so have \<open>(0)\<close> and \<open>(-0)\<close>, two integer-valued Numbers.
\<close>

theorem keys_of_primitive_arguments_counterexample:
  "JSON_stringify (Str ''---'') = Inr (Some (CHR 0x22 # ''---'' @ [CHR 0x22])) \<and>
   [] \<noteq> [Undefined] \<and> key [] = key [Undefined] \<and>
   [Num 0] \<noteq> [NegZero] \<and> key [Num 0] = key [NegZero]"
  by (simp add: eval_key QuoteJSONString_def QuoteJSONChar_def)

text \<open>
  Claim C4, amended: the key joins the \<open>JSON.stringify\<close> texts of the arguments with
  \<open>---\<close>. For tuples of \<open>null\<close>, booleans, safe integers (\<open>|n| < 2^53\<close>, without \<open>-0\<close>)
  and strings of code units below 256, every argument has a text, the delimiter does
  not appear inside the text of an argument that is not a string, and distinct tuples
  never have the same key; in particular \<open>add(12, 3)\<close> and \<open>add(1, 23)\<close> on a new
  instance get the two cache entries \<open>12---3\<close> and \<open>1---23\<close> and the results \<open>15\<close> and
  \<open>24\<close>.
\<close>

theorem keys_of_primitive_arguments:
  assumes "\<forall>v\<in>set a. primitive v" and "\<forall>v\<in>set b. primitive v"
      and "caches w c = Map.empty"
  shows "(\<exists>k. key a = Inr k) \<and> (key a = key b \<longrightarrow> a = b) \<and>
         (\<forall>v\<in>set a. \<exists>s. JSON_stringify v = Inr (Some s) \<and>
              ((\<forall>t. v \<noteq> Str t) \<longrightarrow> (\<forall>p q. s \<noteq> p @ ''---'' @ q))) \<and>
         run_calls (memoized c (call_pure add)) [[Num 12, Num 3], [Num 1, Num 23]] w =
           Some ([Inr (Num 15), Inr (Num 24)],
                 w\<lparr>caches := (caches w)(c := [''12---3'' \<mapsto> Num 15, ''1---23'' \<mapsto> Num 24]),
                   calls := calls w @ [(c, [Num 12, Num 3]), (c, [Num 1, Num 23])]\<rparr>)"
proof -
  from assms(1) have 1: "\<exists>k. key a = Inr k" by (simp add: key_primitive)
  from assms(1,2) have 2: "key a = key b \<longrightarrow> a = b" by (blast intro: key_primitive_inj)
  have 3: "\<forall>v\<in>set a. \<exists>s. JSON_stringify v = Inr (Some s) \<and>
              ((\<forall>t. v \<noteq> Str t) \<longrightarrow> (\<forall>p q. s \<noteq> p @ ''---'' @ q))"
  proof
    fix v assume "v \<in> set a"
    with assms(1) have p: "primitive v" by simp
    then have "JSON_stringify v = Inr (Some (text_of v))" by (rule JSON_stringify_primitive)
    moreover have "(\<forall>t. v \<noteq> Str t) \<longrightarrow> (\<forall>p q. text_of v \<noteq> p @ ''---'' @ q)"
      using no_delimiter_inside[OF p] by blast
    ultimately show "\<exists>s. JSON_stringify v = Inr (Some s) \<and>
              ((\<forall>t. v \<noteq> Str t) \<longrightarrow> (\<forall>p q. s \<noteq> p @ ''---'' @ q))" by blast
  qed
  from assms(3) have 4: "run_calls (memoized c (call_pure add)) [[Num 12, Num 3], [Num 1, Num 23]] w =
           Some ([Inr (Num 15), Inr (Num 24)],
                 w\<lparr>caches := (caches w)(c := [''12---3'' \<mapsto> Num 15, ''1---23'' \<mapsto> Num 24]),
                   calls := calls w @ [(c, [Num 12, Num 3]), (c, [Num 1, Num 23])]\<rparr>)"
    by (simp add: eval_key memoized_def cache_get_def call_pure_def add_def safe_def)
  from 1 2 3 4 show ?thesis by blast
qed

theorem keys_of_primitive_arguments_witness:
  "key [Num 12, Num 3] \<noteq> key [Num 1, Num 23] \<and>
   key [Str ''1---2''] \<noteq> key [Num 1, Num 2] \<and>
   run_calls (memoized 0 (call_pure add)) [[Num 12, Num 3], [Num 1, Num 23]] start =
     Some ([Inr (Num 15), Inr (Num 24)],
           start\<lparr>caches := (caches start)(0 := [''12---3'' \<mapsto> Num 15, ''1---23'' \<mapsto> Num 24]),
                 calls := calls start @ [(0, [Num 12, Num 3]), (0, [Num 1, Num 23])]\<rparr>)"
  using keys_of_primitive_arguments [of "[Num 12, Num 3]" "[Num 1, Num 23]" start 0]
        keys_of_primitive_arguments [of "[Str ''1---2'']" "[Num 1, Num 2]" start 0]
  by (auto simp: start_def safe_def)

section \<open>Arguments without a serialization\<close>

lemma sequence_unserializable:
  "\<forall>v\<in>set a. JSON_stringify v = Inr None \<Longrightarrow>
   sequence (map JSON_stringify a) = Inr (replicate (length a) None)"
  by (induction a) simp_all

lemma join_Nones: "join sep (replicate n None) = concat (replicate (n - 1) sep)"
proof (induction n)
  case 0
  show ?case by simp
next
  case (Suc n)
  then show ?case by (cases n) simp_all
qed

lemma key_unserializable:
  "\<forall>v\<in>set a. JSON_stringify v = Inr None \<Longrightarrow>
   key a = Inr (concat (replicate (length a - 1) ''---''))"
  by (simp add: key_def sequence_unserializable join_Nones)

text \<open>
  Claim C10 says that every call whose arguments all serialize to \<open>undefined\<close> has the
  empty key. With two such arguments the key is the delimiter \<open>---\<close>.
\<close>

theorem unserializable_arguments_share_keys_counterexample:
  "JSON_stringify Undefined = Inr None \<and> JSON_stringify (Fun 1) = Inr None \<and>
   key [Undefined, Fun 1] = Inr ''---'' \<and> key [] = Inr []"
  by (simp add: key_def)

text \<open>
  Claim C10, amended: a call with \<open>n\<close> arguments that all serialize to \<open>undefined\<close>
  has the key of \<open>n - 1\<close> delimiters; it is the empty key for the call without
  arguments and for every call with one such argument. Two such calls whose keys agree
  share one cache entry: after the first has stored a defined result, the second
  returns that result, computed from the other arguments, and \<open>fn\<close> is not invoked.
\<close>

theorem unserializable_arguments_share_keys:
  assumes "\<forall>v\<in>set a. JSON_stringify v = Inr None"
      and "\<forall>v\<in>set b. JSON_stringify v = Inr None"
      and "length a - 1 = length b - 1"
      and "f a = Some (Inr r)" and "r \<noteq> Undefined"
      and "cache_get (caches w c) (concat (replicate (length a - 1) ''---'')) = Undefined"
  shows "key a = Inr (concat (replicate (length a - 1) ''---'')) \<and> key b = key a \<and>
         (length a \<le> 1 \<longrightarrow> key a = Inr []) \<and>
         run_calls (memoized c (call_pure f)) [a, b] w =
           Some ([Inr r, Inr r],
                 w\<lparr>caches := (caches w)(c := (caches w c)
                                 (concat (replicate (length a - 1) ''---'') \<mapsto> r)),
                   calls := calls w @ [(c, a)],
                   console := console w @ [''from cache'']\<rparr>)"
proof -
  let ?k = "concat (replicate (length a - 1) ''---'')"
  from assms(1) have ka: "key a = Inr ?k" by (rule key_unserializable)
  from assms(2,3) have kb: "key b = Inr ?k" by (simp add: key_unserializable)
  have short: "length a \<le> 1 \<longrightarrow> key a = Inr []" using ka by auto
  let ?w1 = "w\<lparr>caches := (caches w)(c := (caches w c)(?k \<mapsto> r)), calls := calls w @ [(c, a)]\<rparr>"
  from ka assms(4,6) have 1: "memoized c (call_pure f) a w = Some (Inr r, ?w1)"
    by (simp add: memoized_miss_returns)
  have "cache_get (caches ?w1 c) ?k = r" by (simp add: cache_get_def)
  with kb assms(5) have 2: "memoized c (call_pure f) b ?w1 =
      Some (Inr r, ?w1\<lparr>console := console ?w1 @ [''from cache'']\<rparr>)"
    using memoized_hit[of b ?k ?w1 c "call_pure f"] by simp
  from 1 2 have "run_calls (memoized c (call_pure f)) [a, b] w =
           Some ([Inr r, Inr r], ?w1\<lparr>console := console ?w1 @ [''from cache'']\<rparr>)" by simp
  with ka kb short show ?thesis by simp
qed

theorem unserializable_arguments_share_keys_witness:
  "key [] = Inr [] \<and> key [Fun 1] = Inr [] \<and>
   count_args [Fun 1] = Some (Inr (Num 1)) \<and>
   run_calls (memoized 0 (call_pure count_args)) [[], [Fun 1]] start =
     Some ([Inr (Num 0), Inr (Num 0)],
           start\<lparr>caches := (caches start)(0 := [[] \<mapsto> Num 0]),
                 calls := [(0, [])], console := [''from cache'']\<rparr>)"
  using unserializable_arguments_share_keys [of "[]" "[Fun 1]" count_args "Num 0" start 0]
  by (simp add: count_args_def start_def cache_get_def)


end
